theory Spec2Isabelle
  imports Complex_Main "HOL-Library.Word" "HOL-Library.Sublist"
begin

section \<open>The benchmark configuration (package bench)\<close>

text \<open>
  \<^verbatim>\<open>type Profile string\<close> with the three named constants. A \<^verbatim>\<open>time.Duration\<close> is a
  signed count of nanoseconds.
\<close>

type_synonym Profile = string
type_synonym Duration = int

definition ProfileP1 :: Profile where "ProfileP1 = ''P1''"
definition ProfileP2 :: Profile where "ProfileP2 = ''P2''"
definition ProfileP3 :: Profile where "ProfileP3 = ''P3''"

definition Millisecond :: Duration where "Millisecond = 1000000"
definition Second :: Duration where "Second = 1000 * Millisecond"

record Config =
  ExecPath :: string
  OutDir :: string
  KSMPath :: string
  Profile :: Profile
  Instances :: "int list"
  MemMiB :: int
  Warmup :: Duration
  Interval :: Duration

subsection \<open>Profile to workload parameters (the switch at the head of startHogs)\<close>

text \<open>
  The pair \<open>(dirtyPct, redirty)\<close> that \<^verbatim>\<open>startHogs\<close> computes before its launch loop.
  The percentages are the float64 literals 0, 5 and 50, all exactly representable.
\<close>

definition hogParams :: "Config \<Rightarrow> rat \<times> Duration" where
  "hogParams cfg =
     (if Profile cfg = ProfileP1 then (0, 0)
      else if Profile cfg = ProfileP2 then (5, 0)
      else if Profile cfg = ProfileP3 then
        (50, if Interval cfg > 0 then Interval cfg else 1 * Second)
      else (0, 0))"

section \<open>Machine integers and library functions of the command line (package main)\<close>

text \<open>
  Go's \<^verbatim>\<open>int\<close> is 64 bits wide on the Linux hosts the tool targets. Arithmetic on it wraps
  around silently; \<open>wrap64\<close> is the two's complement value of an unbounded result.
\<close>

definition maxInt64 :: int where "maxInt64 = 2 ^ 63 - 1"
definition maxInt32 :: int where "maxInt32 = 2 ^ 31 - 1"

definition wrap64 :: "int \<Rightarrow> int" where
  "wrap64 x = (x + 2 ^ 63) mod 2 ^ 64 - 2 ^ 63"

datatype cli_error =
    ErrFormat            \<comment> \<open>ungueltiges scale-Format\<close>
  | ErrSyntax            \<comment> \<open>strconv.ErrSyntax\<close>
  | ErrRange             \<comment> \<open>strconv.ErrRange\<close>
  | ErrStep              \<comment> \<open>step muss > 0 sein\<close>
  | ErrBounds int int    \<comment> \<open>ungueltige Grenzen: min..max\<close>
  | ErrMemMiB            \<comment> \<open>mem-mib muss > 0 sein\<close>
  | ErrDirtyPct          \<comment> \<open>dirty-pct muss 0..100 sein\<close>
  | ErrTooLarge          \<comment> \<open>mem-mib ist zu gross fuer dieses MVP\<close>

text \<open>
  \<^verbatim>\<open>strings.Split(s, "..")\<close>: the pieces between the non-overlapping occurrences of the
  separator, found from left to right. The first argument collects the current piece
  in reverse.
\<close>

fun splitDots :: "string \<Rightarrow> string \<Rightarrow> string list" where
  "splitDots acc [] = [rev acc]"
| "splitDots acc [c] = [rev (c # acc)]"
| "splitDots acc (c # d # cs) =
     (if c = CHR ''.'' \<and> d = CHR ''.'' then rev acc # splitDots [] cs
      else splitDots (c # acc) (d # cs))"

text \<open>
  \<^verbatim>\<open>strings.TrimSpace\<close>: leading and trailing white space runes are removed. A string is
  a sequence of bytes; the white space of Unicode is the six ASCII characters and, in
  UTF-8, U+0085, U+00A0, U+1680, U+2000 to U+200A, U+2028, U+2029, U+202F, U+205F and
  U+3000. \<open>spaceRune bs\<close> is the number of bytes of the white space rune that starts
  \<open>bs\<close>, and 0 when none does.
\<close>

definition spaceRune :: "int list \<Rightarrow> nat" where
  "spaceRune bs =
     (case bs of
        [] \<Rightarrow> 0
      | b # r \<Rightarrow>
          if (9 \<le> b \<and> b \<le> 13) \<or> b = 32 then 1
          else if b = 194 \<and> (take 1 r = [133] \<or> take 1 r = [160]) then 2
          else if b = 225 \<and> take 2 r = [154, 128] then 3
          else if b = 226 \<and> take 1 r = [128] \<and> length r \<ge> 2
                  \<and> ((128 \<le> r ! 1 \<and> r ! 1 \<le> 138) \<or> r ! 1 = 168 \<or> r ! 1 = 169 \<or> r ! 1 = 175)
               then 3
          else if b = 226 \<and> take 2 r = [129, 159] then 3
          else if b = 227 \<and> take 2 r = [128, 128] then 3
          else 0)"

text \<open>The same for the rune that ends a string, given the bytes in reverse.\<close>

definition spaceRuneRev :: "int list \<Rightarrow> nat" where
  "spaceRuneRev rs =
     (if spaceRune (take 1 rs) = 1 then 1
      else if length rs \<ge> 2 \<and> spaceRune (rev (take 2 rs)) = 2 then 2
      else if length rs \<ge> 3 \<and> spaceRune (rev (take 3 rs)) = 3 then 3
      else 0)"

fun trimLeft :: "nat \<Rightarrow> string \<Rightarrow> string" where
  "trimLeft 0 s = s"
| "trimLeft (Suc fuel) s =
     (let k = spaceRune (map of_char s) in if k = 0 then s else trimLeft fuel (drop k s))"

fun trimRightRev :: "nat \<Rightarrow> string \<Rightarrow> string" where
  "trimRightRev 0 r = r"
| "trimRightRev (Suc fuel) r =
     (let k = spaceRuneRev (map of_char r) in if k = 0 then r else trimRightRev fuel (drop k r))"

text \<open>
  Each round removes at least one byte, so \<open>length s\<close> rounds are enough for the two
  loops of \<^verbatim>\<open>TrimSpace\<close>.
\<close>

definition TrimSpace :: "string \<Rightarrow> string" where
  "TrimSpace s = (let t = trimLeft (length s) s in rev (trimRightRev (length t) (rev t)))"

text \<open>
  \<^verbatim>\<open>strconv.Atoi\<close> for a 64-bit \<^verbatim>\<open>int\<close>: an optional sign, then at least one decimal
  digit and nothing else. \<open>parseDigits\<close> is the digit loop of \<^verbatim>\<open>ParseUint\<close> in base 10,
  which reports a range error as soon as the value leaves 64 bits.
\<close>

definition isDigit :: "char \<Rightarrow> bool" where
  "isDigit c = (48 \<le> (of_char c :: int) \<and> (of_char c :: int) \<le> 57)"

fun parseDigits :: "int \<Rightarrow> string \<Rightarrow> cli_error + int" where
  "parseDigits n [] = Inr n"
| "parseDigits n (c # cs) =
     (if \<not> isDigit c then Inl ErrSyntax
      else if n \<ge> (2 ^ 64 - 1) div 10 + 1 then Inl ErrRange
      else let n1 = n * 10 + (of_char c - 48) in
        if n1 > 2 ^ 64 - 1 then Inl ErrRange else parseDigits n1 cs)"

definition Atoi :: "string \<Rightarrow> cli_error + int" where
  "Atoi s =
     (if s = [] then Inl ErrSyntax
      else
        let neg = (hd s = CHR ''-'');
            ds = (if hd s = CHR ''-'' \<or> hd s = CHR ''+'' then tl s else s)
        in if ds = [] then Inl ErrSyntax
           else case parseDigits 0 ds of
                  Inl e \<Rightarrow> Inl e
                | Inr un \<Rightarrow>
                    if \<not> neg \<and> un \<ge> 2 ^ 63 then Inl ErrRange
                    else if neg \<and> un > 2 ^ 63 then Inl ErrRange
                    else Inr (if neg then - un else un))"

subsection \<open>parseScale\<close>

text \<open>
  The loop \<^verbatim>\<open>for i := min; i <= max; i += step\<close>. The addition wraps around, after
  which \<open>i\<close> is negative and the loop goes on; where it never leaves the range the loop
  does not return, which is the value \<open>None\<close>.
\<close>

partial_function (option) scaleLoop :: "int \<Rightarrow> int \<Rightarrow> int \<Rightarrow> int list \<Rightarrow> int list option" where
  "scaleLoop i mx step out =
     (if i \<le> mx then scaleLoop (wrap64 (i + step)) mx step (out @ [i]) else Some out)"

declare scaleLoop.simps [code]

definition parseScale :: "string \<Rightarrow> (cli_error + int list) option" where
  "parseScale s =
     (let parts = splitDots [] s in
      if length parts \<noteq> 2 \<and> length parts \<noteq> 3 then Some (Inl ErrFormat)
      else case Atoi (TrimSpace (parts ! 0)) of
        Inl e \<Rightarrow> Some (Inl e)
      | Inr mn \<Rightarrow>
         (case Atoi (TrimSpace (parts ! 1)) of
            Inl e \<Rightarrow> Some (Inl e)
          | Inr mx \<Rightarrow>
             (case (if length parts = 3
                    then (case Atoi (TrimSpace (parts ! 2)) of
                            Inl e \<Rightarrow> Inl e
                          | Inr st \<Rightarrow> if st \<le> 0 then Inl ErrStep else Inr st)
                    else Inr 1) of
                Inl e \<Rightarrow> Some (Inl e)
              | Inr step \<Rightarrow>
                  if mn \<le> 0 \<or> mx \<le> 0 \<or> mx < mn then Some (Inl (ErrBounds mn mx))
                  else map_option Inr (scaleLoop mn mx step []))))"

section \<open>Floating point\<close>

text \<open>
  A finite \<^verbatim>\<open>float64\<close> is a rational number, and every operation rounds its exact result
  to the nearest value with a 53-bit significand, ties to even (\<open>fl64\<close>). The exponent
  range is bounded below (subnormal numbers) and taken as unbounded above: no value
  that occurs here comes near 2^1024. NaN and the infinities are not modelled.
\<close>

definition pow2 :: "int \<Rightarrow> rat" where
  "pow2 e = (if 0 \<le> e then 2 ^ nat e else 1 / 2 ^ nat (- e))"

function bitLen :: "int \<Rightarrow> int" where
  "bitLen a = (if a \<le> 0 then 0 else 1 + bitLen (a div 2))"
  by pat_completeness auto
termination
  by (relation "measure nat") auto

declare bitLen.simps [simp del]

text \<open>The exponent \<open>e\<close> with \<open>2^e \<le> x < 2^(e+1)\<close>, for positive \<open>x\<close>.\<close>

definition binExp :: "rat \<Rightarrow> int" where
  "binExp x = (let e = bitLen (fst (quotient_of x)) - bitLen (snd (quotient_of x))
               in if pow2 e \<le> x then e else e - 1)"

definition roundEven :: "rat \<Rightarrow> int" where
  "roundEven x =
     (let f = \<lfloor>x\<rfloor>; r = x - of_int f
      in if r < 1 / 2 then f else if 1 / 2 < r then f + 1 else if even f then f else f + 1)"

definition fl64 :: "rat \<Rightarrow> rat" where
  "fl64 x =
     (if x = 0 then 0
      else let q = pow2 (max (binExp \<bar>x\<bar>) (- 1022) - 52)
           in sgn x * of_int (roundEven (\<bar>x\<bar> / q)) * q)"

text \<open>The conversion \<^verbatim>\<open>int(x)\<close> of a float discards the fraction.\<close>

definition truncInt :: "rat \<Rightarrow> int" where
  "truncInt x = (if 0 \<le> x then \<lfloor>x\<rfloor> else \<lceil>x\<rceil>)"

section \<open>The workload process (cmdHog)\<close>

text \<open>
  The checks of \<^verbatim>\<open>cmdHog\<close> up to the allocation \<^verbatim>\<open>make([]byte, int(size))\<close>, on the parsed
  flag values. The result is the error returned, the run-time panic of \<^verbatim>\<open>make\<close> on a
  negative length, or the length of the buffer allocated.
  \<^verbatim>\<open>size := int64(*memMiB) * 1024 * 1024\<close> is two wrapping multiplications.
\<close>

datatype hogStart = HogError cli_error | HogPanic | HogBuffer int

definition hogSize :: "int \<Rightarrow> int" where
  "hogSize memMiB = wrap64 (wrap64 (memMiB * 1024) * 1024)"

definition cmdHog_alloc :: "int \<Rightarrow> rat \<Rightarrow> hogStart" where
  "cmdHog_alloc memMiB dirtyPct =
     (if memMiB \<le> 0 then HogError ErrMemMiB
      else if dirtyPct < 0 \<or> dirtyPct > 100 then HogError ErrDirtyPct
      else let size = hogSize memMiB in
        if size > maxInt32 then HogError ErrTooLarge
        else if size < 0 then HogPanic
        else HogBuffer size)"

subsection \<open>Which pages are made individual\<close>

text \<open>
  \<^verbatim>\<open>dirtyPages := int(float64(totalPages) * (*dirtyPct / 100.0))\<close>: a conversion, a division
  and a multiplication in \<^verbatim>\<open>float64\<close>, then the conversion back.
\<close>

definition dirtyPages :: "int \<Rightarrow> rat \<Rightarrow> int" where
  "dirtyPages totalPages dirtyPct =
     truncInt (fl64 (fl64 (of_int totalPages) * fl64 (dirtyPct / 100)))"

text \<open>
  \<^verbatim>\<open>int((uint64(*id)*1315423911 + uint64(j)*2654435761) % uint64(totalPages))\<close>. The
  conversion to \<^verbatim>\<open>uint64\<close> and the unsigned operations are modulo 2^64; \<open>ident\<close> is the
  flag \<^verbatim>\<open>--id\<close>.
\<close>

definition u64 :: "int \<Rightarrow> int" where
  "u64 x = x mod 2 ^ 64"

definition dirtyIndex :: "int \<Rightarrow> int \<Rightarrow> int \<Rightarrow> int" where
  "dirtyIndex ident totalPages j =
     u64 (u64 (u64 ident * 1315423911) + u64 (u64 j * 2654435761)) mod u64 totalPages"

function indexLoop :: "int \<Rightarrow> int \<Rightarrow> int \<Rightarrow> int \<Rightarrow> int list \<Rightarrow> int list" where
  "indexLoop ident totalPages dirty j indices =
     (if j < dirty
      then indexLoop ident totalPages dirty (j + 1) (indices @ [dirtyIndex ident totalPages j])
      else indices)"
  by pat_completeness auto
termination
  by (relation "measure (\<lambda>(ident, totalPages, dirty, j, indices). nat (dirty - j))") auto

declare indexLoop.simps [simp del]

definition hogIndices :: "int \<Rightarrow> int \<Rightarrow> rat \<Rightarrow> int list" where
  "hogIndices ident totalPages dirtyPct =
     (let n = dirtyPages totalPages dirtyPct
      in if n > 0 then indexLoop ident totalPages n 0 [] else [])"

section \<open>The savings estimate (estimateSavedMiB)\<close>

text \<open>
  The argument is a Go map from names to \<^verbatim>\<open>int64\<close>, possibly \<^verbatim>\<open>nil\<close>; reading a key that is
  not there gives 0. The page size of the platform, \<^verbatim>\<open>os.Getpagesize()\<close>, is a parameter.
\<close>

type_synonym ksmStats = "(string \<rightharpoonup> 64 word) option"

definition ksmGet :: "ksmStats \<Rightarrow> string \<Rightarrow> 64 word" where
  "ksmGet ksm k = (case ksm of None \<Rightarrow> 0 | Some m \<Rightarrow> (case m k of None \<Rightarrow> 0 | Some v \<Rightarrow> v))"

definition estimateSavedMiB :: "int \<Rightarrow> ksmStats \<Rightarrow> rat" where
  "estimateSavedMiB ps ksm =
     (if ksm = None then 0
      else
        let shared = ksmGet ksm ''pages_shared'';
            sharing = ksmGet ksm ''pages_sharing''
        in if sint shared \<le> 0 \<or> sint sharing \<le> 0 \<or> sint sharing < sint shared then 0
           else
             let savedPages = sharing - shared;
                 savedBytes = fl64 (fl64 (of_int (sint savedPages)) * fl64 (of_int ps))
             in fl64 (savedBytes / (1024 * 1024)))"

section \<open>Processes, the clock and the environment\<close>

text \<open>
  What the orchestrator sees of the operating system. A child process is \<open>Running\<close>,
  has exited and waits to be collected (\<open>Zombie\<close>), or has been collected by \<^verbatim>\<open>Wait\<close>
  (\<open>Reaped\<close>), which also stands for a process that never existed. The process id is
  the ordinal of the launch. The clock counts nanoseconds. The other fields are the
  environment, which the program does not change: which processes ignore SIGTERM,
  which launches fail, when the context is cancelled, whether the output directory
  can be made and the result written, and what the probes of the system read at a
  given time.
\<close>

datatype pstatus = Running | Zombie | Reaped

datatype signal = SIGTERM | SIGKILL | SIG0

datatype bench_error =
    ErrExecPath         \<comment> \<open>ExecPath fehlt\<close>
  | ErrInstancesEmpty   \<comment> \<open>Instances ist leer\<close>
  | ErrMkdir            \<comment> \<open>the error of os.MkdirAll\<close>
  | ErrWriteJSON        \<comment> \<open>the error of writeJSON\<close>
  | ErrCanceled         \<comment> \<open>ctx.Err()\<close>
  | ErrStart nat        \<comment> \<open>the error of cmd.Start for the launch of that ordinal\<close>

definition errorText :: "bench_error \<Rightarrow> string" where
  "errorText e =
     (case e of
        ErrExecPath \<Rightarrow> ''ExecPath fehlt (Pfad zum densityctl binary)''
      | ErrInstancesEmpty \<Rightarrow> ''Instances ist leer''
      | ErrMkdir \<Rightarrow> ''mkdir''
      | ErrWriteJSON \<Rightarrow> ''write''
      | ErrCanceled \<Rightarrow> ''context canceled''
      | ErrStart k \<Rightarrow> ''fork/exec'')"

record world =
  status :: "nat \<Rightarrow> pstatus"
  now :: int
  launched :: nat
  ignoresTerm :: "nat \<Rightarrow> bool"
  launchFails :: "nat \<Rightarrow> bool"
  cancelAt :: "int option"
  mkdirOk :: bool
  writeOk :: bool
  memInfo :: "int \<Rightarrow> (string \<rightharpoonup> nat) option"
  ksmStatus :: "string \<Rightarrow> int \<Rightarrow> ksmStats"
  ksmdTicks :: "int \<Rightarrow> int"
  pageSize :: int

text \<open>
  An \<^verbatim>\<open>*exec.Cmd\<close>: the numbers passed on the command line (\<^verbatim>\<open>--mem-mib\<close>, \<^verbatim>\<open>--id\<close>,
  \<^verbatim>\<open>--dirty-pct\<close>, \<^verbatim>\<open>--redirty-ms\<close>), the process once started, and the process state, which
  is the result of \<^verbatim>\<open>Exited()\<close> where it is not nil. A handle may be nil.
\<close>

record Cmd =
  Args :: "int \<times> int \<times> rat \<times> int"
  Process :: "nat option"
  ProcessState :: "bool option"

type_synonym handle = "Cmd option"

definition ctxDone :: "world \<Rightarrow> bool" where
  "ctxDone w = (case cancelAt w of None \<Rightarrow> False | Some t \<Rightarrow> t \<le> now w)"

text \<open>
  \<^verbatim>\<open>Process.Signal\<close> fails for a process that is gone and succeeds otherwise, also for a
  zombie. SIGKILL ends a running process, SIGTERM ends it unless it ignores the
  signal, and signal 0 only probes.
\<close>

definition ProcessSignal :: "world \<Rightarrow> nat \<Rightarrow> signal \<Rightarrow> world \<times> bool" where
  "ProcessSignal w pid sig =
     (case status w pid of
        Reaped \<Rightarrow> (w, False)
      | Zombie \<Rightarrow> (w, True)
      | Running \<Rightarrow>
          if sig = SIGKILL \<or> (sig = SIGTERM \<and> \<not> ignoresTerm w pid)
          then (w\<lparr>status := (status w)(pid := Zombie)\<rparr>, True)
          else (w, True))"

definition ProcessKill :: "world \<Rightarrow> nat \<Rightarrow> world \<times> bool" where
  "ProcessKill w pid = ProcessSignal w pid SIGKILL"

text \<open>
  \<^verbatim>\<open>Process.Wait\<close> collects a process that has exited and fails for one that is gone. On
  a running process it blocks until the process exits; the model does not say when
  that is, and the call does not return (\<open>None\<close>).
\<close>

definition ProcessWait :: "world \<Rightarrow> nat \<Rightarrow> (world \<times> bool) option" where
  "ProcessWait w pid =
     (case status w pid of
        Reaped \<Rightarrow> Some (w, False)
      | Zombie \<Rightarrow> Some (w\<lparr>status := (status w)(pid := Reaped)\<rparr>, True)
      | Running \<Rightarrow> None)"

text \<open>
  \<^verbatim>\<open>cmd.Start\<close> of a command made by \<^verbatim>\<open>exec.CommandContext\<close>: it fails when the context is
  done already and when the launch itself fails. When the context is cancelled
  later, the package kills the process; the orchestrator calls \<^verbatim>\<open>stopHogs\<close> on that path,
  which kills it in any case, and the model leaves the kill to \<^verbatim>\<open>stopHogs\<close>.
\<close>

definition cmdStart :: "world \<Rightarrow> Cmd \<Rightarrow> world \<times> (bench_error + Cmd)" where
  "cmdStart w c =
     (let k = launched w; w1 = w\<lparr>launched := k + 1\<rparr>
      in if ctxDone w then (w1, Inl ErrCanceled)
         else if launchFails w k then (w1, Inl (ErrStart k))
         else (w1\<lparr>status := (status w)(k := Running)\<rparr>, Inr (c\<lparr>Process := Some k\<rparr>)))"

section \<open>The lifecycle of a batch of workloads\<close>

text \<open>The process of a handle, where \<^verbatim>\<open>c != nil && c.Process != nil\<close>.\<close>

definition handlePid :: "handle \<Rightarrow> nat option" where
  "handlePid c = (case c of None \<Rightarrow> None | Some c' \<Rightarrow> Process c')"

subsection \<open>stopHogs\<close>

text \<open>The first loop: SIGTERM to every process.\<close>

fun termAll :: "world \<Rightarrow> handle list \<Rightarrow> world" where
  "termAll w [] = w"
| "termAll w (c # cs) =
     (case handlePid c of
        None \<Rightarrow> termAll w cs
      | Some pid \<Rightarrow> termAll (fst (ProcessSignal w pid SIGTERM)) cs)"

text \<open>
  The second loop polls until the deadline, 5 seconds after its start, and sleeps 100
  milliseconds between two rounds. A handle keeps the loop going when it is not nil,
  its process state does not say that it exited, and signal 0 reaches its process.
\<close>

definition pollsAlive :: "world \<Rightarrow> handle \<Rightarrow> bool" where
  "pollsAlive w c =
     (case c of
        None \<Rightarrow> False
      | Some c' \<Rightarrow>
          if ProcessState c' = Some True then False
          else (case Process c' of
                  None \<Rightarrow> False
                | Some pid \<Rightarrow> snd (ProcessSignal w pid SIG0)))"

definition allDone :: "world \<Rightarrow> handle list \<Rightarrow> bool" where
  "allDone w cmds = (\<not> list_ex (pollsAlive w) cmds)"

function pollLoop :: "world \<Rightarrow> int \<Rightarrow> handle list \<Rightarrow> world" where
  "pollLoop w deadline cmds =
     (if now w < deadline
      then (if allDone w cmds then w
            else pollLoop (w\<lparr>now := now w + 100 * Millisecond\<rparr>) deadline cmds)
      else w)"
  by pat_completeness auto
termination
  by (relation "measure (\<lambda>(w, deadline, cmds). nat (deadline - now w))") (auto simp: Millisecond_def)

declare pollLoop.simps [simp del]

text \<open>The third loop: \<^verbatim>\<open>Kill\<close> and \<^verbatim>\<open>Wait\<close> for every process, whatever the errors.\<close>

fun killAll :: "world \<Rightarrow> handle list \<Rightarrow> world option" where
  "killAll w [] = Some w"
| "killAll w (c # cs) =
     (case handlePid c of
        None \<Rightarrow> killAll w cs
      | Some pid \<Rightarrow>
          (case ProcessWait (fst (ProcessKill w pid)) pid of
             None \<Rightarrow> None
           | Some (w', ok) \<Rightarrow> killAll w' cs))"

text \<open>The result is the world and the error returned, which is always nil.\<close>

definition stopHogs :: "world \<Rightarrow> handle list \<Rightarrow> (world \<times> bench_error option) option" where
  "stopHogs w cmds =
     (let w1 = termAll w cmds;
          deadline = now w1 + 5 * Second;
          w2 = pollLoop w1 deadline cmds
      in case killAll w2 cmds of None \<Rightarrow> None | Some w3 \<Rightarrow> Some (w3, None))"

subsection \<open>countAlive\<close>

definition countAlive :: "world \<Rightarrow> handle list \<Rightarrow> int" where
  "countAlive w cmds =
     int (length (filter (\<lambda>c. case handlePid c of
                                 None \<Rightarrow> False
                               | Some pid \<Rightarrow> snd (ProcessSignal w pid SIG0)) cmds))"

subsection \<open>startHogs\<close>

text \<open>
  The launch loop, from \<open>i\<close> to \<open>n - 1\<close>, with the handles collected so far. On a launch
  that fails, the handles collected are stopped and the error is returned without
  handles. \<^verbatim>\<open>redirty.Milliseconds()\<close> is the whole number of milliseconds.
\<close>

function startLoop ::
  "world \<Rightarrow> Config \<Rightarrow> rat \<Rightarrow> Duration \<Rightarrow> int \<Rightarrow> int \<Rightarrow> handle list
   \<Rightarrow> (world \<times> (bench_error + handle list)) option" where
  "startLoop w cfg dirtyPct redirty i n cmds =
     (if i < n
      then (case cmdStart w \<lparr>Args = (MemMiB cfg, i, dirtyPct, redirty div Millisecond),
                             Process = None, ProcessState = None\<rparr> of
              (w1, Inl err) \<Rightarrow>
                (case stopHogs w1 cmds of
                   None \<Rightarrow> None
                 | Some (w2, e) \<Rightarrow> Some (w2, Inl err))
            | (w1, Inr cmd) \<Rightarrow> startLoop w1 cfg dirtyPct redirty (i + 1) n (cmds @ [Some cmd]))
      else Some (w, Inr cmds))"
  by pat_completeness auto
termination
  by (relation "measure (\<lambda>(w, cfg, dirtyPct, redirty, i, n, cmds). nat (n - i))") auto

declare startLoop.simps [simp del]

definition startHogs ::
  "world \<Rightarrow> Config \<Rightarrow> int \<Rightarrow> (world \<times> (bench_error + handle list)) option" where
  "startHogs w cfg n =
     (case hogParams cfg of (dirtyPct, redirty) \<Rightarrow> startLoop w cfg dirtyPct redirty 0 n [])"

section \<open>The orchestrator (Run)\<close>

record StepResult =
  N :: int
  Alive :: int
  Duration :: Duration
  StepProfile :: Profile
  StepMemMiB :: int
  StepWarmup :: Duration
  PreMemKB :: "(string \<rightharpoonup> nat) option"
  PostMemKB :: "(string \<rightharpoonup> nat) option"
  PreKSM :: ksmStats
  PostKSM :: ksmStats
  EstimatedSavedMiB :: rat
  KsmdTicksDelta :: int
  Notes :: string

record RunResult =
  StartedAt :: int
  RunProfile :: Profile
  Steps :: "StepResult list"

text \<open>
  The \<^verbatim>\<open>select\<close> of the warmup: the context is done first when it is cancelled no later
  than the end of the warmup. The result says whether it was.
\<close>

definition warmupWait :: "world \<Rightarrow> Duration \<Rightarrow> world \<times> bool" where
  "warmupWait w d =
     (case cancelAt w of
        None \<Rightarrow> (w\<lparr>now := now w + max 0 d\<rparr>, False)
      | Some t \<Rightarrow>
          if t \<le> now w + max 0 d then (w\<lparr>now := max (now w) t\<rparr>, True)
          else (w\<lparr>now := now w + max 0 d\<rparr>, False))"

text \<open>
  The body of the loop of \<^verbatim>\<open>Run\<close> for a count \<open>n > 0\<close>. The third component of the result
  is the error with which \<^verbatim>\<open>Run\<close> returns at once, if any.
\<close>

definition runStep ::
  "world \<Rightarrow> Config \<Rightarrow> int \<Rightarrow> RunResult \<Rightarrow> (world \<times> RunResult \<times> bench_error option) option" where
  "runStep w cfg n res =
     (let step = \<lparr>N = n, Alive = 0, Duration = 0, StepProfile = Profile cfg,
                  StepMemMiB = MemMiB cfg, StepWarmup = Warmup cfg,
                  PreMemKB = memInfo w (now w), PostMemKB = None,
                  PreKSM = ksmStatus w (KSMPath cfg) (now w), PostKSM = None,
                  EstimatedSavedMiB = 0, KsmdTicksDelta = 0, Notes = []\<rparr>;
          ksmdBefore = ksmdTicks w (now w)
      in case startHogs w cfg n of
           None \<Rightarrow> None
         | Some (w1, Inl err) \<Rightarrow>
             Some (w1, res\<lparr>Steps := Steps res @ [step\<lparr>Notes := ''Startfehler: '' @ errorText err\<rparr>]\<rparr>,
                   None)
         | Some (w1, Inr cmds) \<Rightarrow>
             (case warmupWait w1 (Warmup cfg) of
                (w2, True) \<Rightarrow>
                  (case stopHogs w2 cmds of
                     None \<Rightarrow> None
                   | Some (w3, e) \<Rightarrow> Some (w3, res, Some ErrCanceled))
              | (w2, False) \<Rightarrow>
                  (let postK = ksmStatus w2 (KSMPath cfg) (now w2);
                       ksmdAfter = ksmdTicks w2 (now w2);
                       step1 = step\<lparr>Alive := countAlive w2 cmds,
                                    PostMemKB := memInfo w2 (now w2), PostKSM := postK\<rparr>;
                       step2 = (if ksmdBefore > 0 \<and> ksmdAfter > 0 \<and> ksmdAfter \<ge> ksmdBefore
                                then step1\<lparr>KsmdTicksDelta := ksmdAfter - ksmdBefore\<rparr>
                                else step1);
                       step3 = step2\<lparr>EstimatedSavedMiB := estimateSavedMiB (pageSize w2) postK\<rparr>
                   in case stopHogs w2 cmds of
                        None \<Rightarrow> None
                      | Some (w3, e) \<Rightarrow>
                          Some (w3, res\<lparr>Steps := Steps res @ [step3\<lparr>Duration := Warmup cfg\<rparr>]\<rparr>,
                                None))))"

fun runLoop ::
  "world \<Rightarrow> Config \<Rightarrow> int list \<Rightarrow> RunResult \<Rightarrow> (world \<times> RunResult \<times> bench_error option) option" where
  "runLoop w cfg [] res = Some (w, res, None)"
| "runLoop w cfg (n # ns) res =
     (if n \<le> 0 then runLoop w cfg ns res
      else case runStep w cfg n res of
             None \<Rightarrow> None
           | Some (w', res', Some err) \<Rightarrow> Some (w', res', Some err)
           | Some (w', res', None) \<Rightarrow> runLoop w' cfg ns res')"

text \<open>The defaults that \<^verbatim>\<open>Run\<close> fills in.\<close>

definition withDefaults :: "Config \<Rightarrow> Config" where
  "withDefaults cfg =
     (let c1 = (if OutDir cfg = [] then cfg\<lparr>OutDir := ''results''\<rparr> else cfg);
          c2 = (if KSMPath c1 = [] then c1\<lparr>KSMPath := ''/sys/kernel/mm/ksm''\<rparr> else c1);
          c3 = (if MemMiB c2 \<le> 0 then c2\<lparr>MemMiB := 256\<rparr> else c2);
          c4 = (if Warmup c3 \<le> 0 then c3\<lparr>Warmup := 20 * Second\<rparr> else c3)
      in if Profile c4 = [] then c4\<lparr>Profile := ProfileP1\<rparr> else c4)"

text \<open>
  \<^verbatim>\<open>Run\<close> returns the result, which may be nil, and the error, which may be nil. The
  files it writes are not part of the model; only whether writing the JSON file
  fails is. The summary in Markdown is written without a check.
\<close>

definition Run ::
  "world \<Rightarrow> Config \<Rightarrow> (world \<times> RunResult option \<times> bench_error option) option" where
  "Run w cfg0 =
     (if ExecPath cfg0 = [] then Some (w, None, Some ErrExecPath)
      else
        let cfg = withDefaults cfg0 in
        if Instances cfg = [] then Some (w, None, Some ErrInstancesEmpty)
        else if \<not> mkdirOk w then Some (w, None, Some ErrMkdir)
        else case runLoop w cfg (Instances cfg)
                    \<lparr>StartedAt = now w, RunProfile = Profile cfg, Steps = []\<rparr> of
               None \<Rightarrow> None
             | Some (w', res, Some err) \<Rightarrow> Some (w', Some res, Some err)
             | Some (w', res, None) \<Rightarrow>
                 if writeOk w' then Some (w', Some res, None)
                 else Some (w', Some res, Some ErrWriteJSON))"


text \<open>The processes that exist.\<close>

definition live :: "world \<Rightarrow> nat set" where
  "live w = {p. status w p \<noteq> Reaped}"

definition pids :: "handle list \<Rightarrow> nat set" where
  "pids cmds = {p. \<exists>c \<in> set cmds. handlePid c = Some p}"

section \<open>An example environment\<close>

text \<open>
  A host without child processes at time 0, on which the process of the second
  launch ignores SIGTERM and the third launch fails; the context is never cancelled.
\<close>

definition exampleWorld :: world where
  "exampleWorld =
     \<lparr>status = (\<lambda>p. Reaped), now = 0, launched = 0, ignoresTerm = (\<lambda>p. p = 1),
      launchFails = (\<lambda>k. k = 2), cancelAt = None, mkdirOk = True, writeOk = True,
      memInfo = (\<lambda>t. None), ksmStatus = (\<lambda>path t. None), ksmdTicks = (\<lambda>t. 0),
      pageSize = 4096\<rparr>"

definition exampleConfig :: Config where
  "exampleConfig =
     \<lparr>ExecPath = ''/usr/bin/densityctl'', OutDir = [], KSMPath = [], Profile = ''P1'',
      Instances = [1, 2], MemMiB = 256, Warmup = 0, Interval = 0\<rparr>"

section \<open>Properties\<close>


subsection \<open>Scale ranges\<close>

lemma splitDots_plain: "CHR ''.'' \<notin> set a \<Longrightarrow> splitDots acc a = [rev acc @ a]"
  by (induction acc a rule: splitDots.induct) auto

lemma splitDots_sep:
  "CHR ''.'' \<notin> set a \<Longrightarrow> splitDots acc (a @ CHR ''.'' # CHR ''.'' # r) = (rev acc @ a) # splitDots [] r"
proof (induction a arbitrary: acc)
  case Nil
  then show ?case by simp
next
  case (Cons x xs)
  then show ?case by (cases xs) auto
qed

lemma wrap64_id: "- (2 ^ 63) \<le> x \<Longrightarrow> x \<le> maxInt64 \<Longrightarrow> wrap64 x = x"
  by (simp add: wrap64_def maxInt64_def)

lemma scaleLoop_progression:
  assumes "0 < st" "mx + st \<le> maxInt64" "- (2 ^ 63) \<le> i"
  shows "scaleLoop i mx st out
         = Some (out @ map (\<lambda>k. i + int k * st) [0..<nat ((mx - i) div st + 1)])"
  using assms
proof (induction "nat (mx - i + 1)" arbitrary: i out rule: less_induct)
  case less
  show ?case
  proof (cases "i \<le> mx")
    case False
    then have "(mx - i) div st < 0" using less.prems(1)
      by (simp add: div_neg_pos_less0)
    then show ?thesis using False by (subst scaleLoop.simps) simp
  next
    case True
    have w: "wrap64 (i + st) = i + st"
      using True less.prems by (intro wrap64_id) auto
    have m: "nat (mx - (i + st) + 1) < nat (mx - i + 1)"
      using True less.prems(1) by linarith
    have d: "(mx - (i + st)) div st + 1 = (mx - i) div st"
    proof -
      have "(mx - (i + st) + st) div st = (mx - (i + st)) div st + 1"
        using less.prems(1) by (intro div_add_self2) simp
      then show ?thesis by simp
    qed
    have nn: "0 \<le> (mx - i) div st" using True less.prems(1)
      by (simp add: pos_imp_zdiv_nonneg_iff)
    have ih: "scaleLoop (i + st) mx st (out @ [i])
       = Some ((out @ [i]) @ map (\<lambda>k. (i + st) + int k * st) [0..<nat ((mx - (i + st)) div st + 1)])"
      using less.hyps[OF m] less.prems by simp
    have "nat ((mx - i) div st + 1) = Suc (nat ((mx - i) div st))"
      using nn by linarith
    then have "map (\<lambda>k. i + int k * st) [0..<nat ((mx - i) div st + 1)]
       = i # map (\<lambda>k. (i + st) + int k * st) [0..<nat ((mx - i) div st)]"
      by (simp add: upt_conv_Cons map_Suc_upt[symmetric] algebra_simps del: upt_Suc)
    then show ?thesis
      using True w ih d by (subst scaleLoop.simps) simp
  qed
qed

lemma parseScale_two:
  assumes "CHR ''.'' \<notin> set a" "CHR ''.'' \<notin> set b"
    "Atoi (TrimSpace a) = Inr mn" "Atoi (TrimSpace b) = Inr mx"
  shows "parseScale (a @ ''..'' @ b) =
      (if mn \<le> 0 \<or> mx \<le> 0 \<or> mx < mn then Some (Inl (ErrBounds mn mx))
       else if mx + 1 \<le> maxInt64
         then Some (Inr (map (\<lambda>k. mn + int k * 1) [0..<nat ((mx - mn) div 1 + 1)]))
       else parseScale (a @ ''..'' @ b))"
proof -
  have p: "splitDots [] (a @ CHR ''.'' # CHR ''.'' # b) = [a, b]"
    using assms(1,2) by (simp add: splitDots_sep splitDots_plain)
  show ?thesis
    using assms(3,4) scaleLoop_progression[of 1 mx mn "[]"]
    by (simp add: parseScale_def p Let_def)
qed

lemma parseScale_three:
  assumes "CHR ''.'' \<notin> set a" "CHR ''.'' \<notin> set b" "CHR ''.'' \<notin> set c"
    "Atoi (TrimSpace a) = Inr mn" "Atoi (TrimSpace b) = Inr mx" "Atoi (TrimSpace c) = Inr st"
  shows "parseScale (a @ ''..'' @ b @ ''..'' @ c) =
      (if st \<le> 0 then Some (Inl ErrStep)
       else if mn \<le> 0 \<or> mx \<le> 0 \<or> mx < mn then Some (Inl (ErrBounds mn mx))
       else if mx + st \<le> maxInt64
         then Some (Inr (map (\<lambda>k. mn + int k * st) [0..<nat ((mx - mn) div st + 1)]))
       else parseScale (a @ ''..'' @ b @ ''..'' @ c))"
proof -
  have p: "splitDots [] (a @ CHR ''.'' # CHR ''.'' # b @ CHR ''.'' # CHR ''.'' # c) = [a, b, c]"
    using assms(1-3) by (simp add: splitDots_sep splitDots_plain)
  show ?thesis
    using assms(4-6) scaleLoop_progression[of st mx mn "[]"]
    by (simp add: parseScale_def p Let_def)
qed

lemma parseScale_10_80_10: "parseScale ''10..80..10'' = Some (Inr [10, 20, 30, 40, 50, 60, 70, 80])"
  by code_simp

lemma parseScale_10_80: "parseScale ''10..80'' = Some (Inr [10..80])"
  by code_simp

lemma parseScale_5_3: "parseScale ''5..3'' = Some (Inl (ErrBounds 5 3))"
  by code_simp

lemma parseScale_0_10: "parseScale ''0..10'' = Some (Inl (ErrBounds 0 10))"
  by code_simp

lemma parseScale_10_80_0: "parseScale ''10..80..0'' = Some (Inl ErrStep)"
  by code_simp

text \<open>
  C8, as the code has it. The text \<open>10..80\<close> has the default step 1 and yields the 71
  counts 10, 11, ..., 80; \<open>10..80..10\<close> yields 10, 20, ..., 80; \<open>5..3\<close> and \<open>0..10\<close> are
  rejected for their bounds and \<open>10..80..0\<close> for its step. In general, for pieces
  without a dot that \<^verbatim>\<open>Atoi\<close> reads as \<open>mn\<close>, \<open>mx\<close> and \<open>st\<close>: a step that is not positive
  is rejected, then bounds that are not both positive with \<open>mn \<le> mx\<close> are rejected, and
  otherwise the result is \<open>mn, mn + st, ...\<close> up to the last value not above \<open>mx\<close>, as
  long as \<open>mx + st\<close> fits the 64-bit integer.
\<close>

theorem parseScale_ranges:
  "parseScale ''10..80..10'' = Some (Inr [10, 20, 30, 40, 50, 60, 70, 80])
   \<and> parseScale ''10..80'' = Some (Inr [10..80])
   \<and> parseScale ''5..3'' = Some (Inl (ErrBounds 5 3))
   \<and> parseScale ''0..10'' = Some (Inl (ErrBounds 0 10))
   \<and> parseScale ''10..80..0'' = Some (Inl ErrStep)
   \<and> (CHR ''.'' \<notin> set a \<and> CHR ''.'' \<notin> set b
        \<and> Atoi (TrimSpace a) = Inr mn \<and> Atoi (TrimSpace b) = Inr mx \<longrightarrow>
      parseScale (a @ ''..'' @ b) =
        (if mn \<le> 0 \<or> mx \<le> 0 \<or> mx < mn then Some (Inl (ErrBounds mn mx))
         else if mx + 1 \<le> maxInt64
           then Some (Inr (map (\<lambda>k. mn + int k * 1) [0..<nat ((mx - mn) div 1 + 1)]))
         else parseScale (a @ ''..'' @ b)))
   \<and> (CHR ''.'' \<notin> set a \<and> CHR ''.'' \<notin> set b \<and> CHR ''.'' \<notin> set c
        \<and> Atoi (TrimSpace a) = Inr mn \<and> Atoi (TrimSpace b) = Inr mx
        \<and> Atoi (TrimSpace c) = Inr st \<longrightarrow>
      parseScale (a @ ''..'' @ b @ ''..'' @ c) =
        (if st \<le> 0 then Some (Inl ErrStep)
         else if mn \<le> 0 \<or> mx \<le> 0 \<or> mx < mn then Some (Inl (ErrBounds mn mx))
         else if mx + st \<le> maxInt64
           then Some (Inr (map (\<lambda>k. mn + int k * st) [0..<nat ((mx - mn) div st + 1)]))
         else parseScale (a @ ''..'' @ b @ ''..'' @ c)))"
  using parseScale_10_80_10 parseScale_10_80 parseScale_5_3 parseScale_0_10 parseScale_10_80_0
    parseScale_two[of a b mn mx] parseScale_three[of a b c mn mx st]
  by blast

theorem parseScale_ranges_witness:
  "CHR ''.'' \<notin> set ''3'' \<and> CHR ''.'' \<notin> set ''12'' \<and> CHR ''.'' \<notin> set ''4''
   \<and> Atoi (TrimSpace ''3'') = Inr 3 \<and> Atoi (TrimSpace ''12'') = Inr 12
   \<and> Atoi (TrimSpace ''4'') = Inr 4
   \<and> parseScale (''3'' @ ''..'' @ ''12'') = Some (Inr [3, 4, 5, 6, 7, 8, 9, 10, 11, 12])
   \<and> parseScale (''3'' @ ''..'' @ ''12'' @ ''..'' @ ''4'') = Some (Inr [3, 7, 11])"
proof -
  have a: "Atoi (TrimSpace ''3'') = Inr 3" by code_simp
  have b: "Atoi (TrimSpace ''12'') = Inr 12" by code_simp
  have c: "Atoi (TrimSpace ''4'') = Inr 4" by code_simp
  have u: "map (\<lambda>k. 3 + int k * 1) [0..<nat ((12 - 3) div 1 + 1)] = [3, 4, 5, 6, 7, 8, 9, 10, 11, 12]"
    by code_simp
  have v: "map (\<lambda>k. 3 + int k * 4) [0..<nat ((12 - 3) div 4 + 1)] = [3, 7, 11]"
    by code_simp
  show ?thesis
    using parseScale_ranges[of "''3''" "''12''" 3 12 "''4''" 4] a b c u v
    by (simp add: maxInt64_def)
qed

text \<open>
  The range \<open>10..80\<close> without a step is not the eight multiples of ten.
\<close>

theorem parseScale_default_step_counterexample:
  "parseScale ''10..80'' \<noteq> Some (Inr [10, 20, 30, 40, 50, 60, 70, 80])"
  by code_simp


subsection \<open>Rounding to float64\<close>

lemma pow2_powi: "pow2 e = 2 powi e"
  by (simp add: pow2_def power_int_def field_simps)

lemma pow2_pos: "0 < pow2 e"
  by (simp add: pow2_powi)

lemma pow2_add: "pow2 (a + b) = pow2 a * pow2 b"
  by (simp add: pow2_powi power_int_add)

lemma pow2_nat: "0 \<le> e \<Longrightarrow> pow2 e = of_int (2 ^ nat e)"
  by (simp add: pow2_def)

lemma pow2_less_imp: "pow2 a < pow2 b \<Longrightarrow> a < b"
proof (rule ccontr)
  assume l: "pow2 a < pow2 b" and "\<not> a < b"
  then have "b \<le> a" by simp
  then have "(2::rat) powi b \<le> 2 powi a"
    by (intro power_int_increasing) auto
  with l show False by (simp add: pow2_powi)
qed

lemma bitLen_bounds:
  "0 < a \<Longrightarrow> 1 \<le> bitLen a \<and> 2 ^ nat (bitLen a - 1) \<le> a \<and> a < 2 ^ nat (bitLen a)"
proof (induction a rule: bitLen.induct)
  case (1 a)
  show ?case
  proof (cases "a = 1")
    case True
    have "bitLen 1 = 1" by (simp add: bitLen.simps[of 1] bitLen.simps[of 0])
    then show ?thesis using True by simp
  next
    case False
    with "1.prems" have h: "0 < a div 2" by simp
    define L where "L = bitLen (a div 2)"
    have ih: "1 \<le> L" "2 ^ nat (L - 1) \<le> a div 2" "a div 2 < 2 ^ nat L"
      using "1.IH" "1.prems" h by (simp_all add: L_def)
    have b: "bitLen a = 1 + L"
      using "1.prems" by (subst bitLen.simps) (simp add: L_def)
    have n1: "nat (1 + L - 1) = Suc (nat (L - 1))" using ih(1) by simp
    have n2: "nat (1 + L) = Suc (nat L)" using ih(1) by simp
    have n3: "nat L = Suc (nat (L - 1))" using ih(1) by simp
    have p3: "(2::int) ^ nat L = 2 * 2 ^ nat (L - 1)" by (subst n3) simp
    have "2 * 2 ^ nat (L - 1) \<le> a" using ih(2) by linarith
    moreover have "a < 2 * 2 ^ nat L" using ih(3) by linarith
    ultimately show ?thesis using ih(1) p3 by (simp add: b n1 n2)
  qed
qed

lemma binExp_le:
  assumes "0 < x"
  shows "pow2 (binExp x) \<le> x"
proof -
  obtain a b where q: "quotient_of x = (a, b)" by (cases "quotient_of x")
  have b: "0 < b" using q by (rule quotient_of_denom_pos)
  have x: "x = of_int a / of_int b" using q by (rule quotient_of_div)
  have a: "0 < a" using assms b by (simp add: x zero_less_divide_iff)
  define e where "e = bitLen a - bitLen b"
  have be: "binExp x = (if pow2 e \<le> x then e else e - 1)"
    by (simp add: binExp_def q e_def Let_def)
  have "pow2 (e - 1) \<le> x"
  proof -
    have la: "2 ^ nat (bitLen a - 1) \<le> a" and la1: "1 \<le> bitLen a"
      using bitLen_bounds[OF a] by auto
    have lb: "b < 2 ^ nat (bitLen b)" and lb1: "1 \<le> bitLen b"
      using bitLen_bounds[OF b] by auto
    have A: "pow2 (bitLen a - 1) \<le> of_int a"
    proof -
      have "(of_int (2 ^ nat (bitLen a - 1)) :: rat) \<le> of_int a"
        using la by (simp only: of_int_le_iff)
      then show ?thesis using la1 by (simp add: pow2_nat)
    qed
    have B: "(of_int b :: rat) \<le> pow2 (bitLen b)"
    proof -
      have "(of_int b :: rat) < of_int (2 ^ nat (bitLen b))"
        using lb by (simp only: of_int_less_iff)
      then show ?thesis using lb1 by (simp add: pow2_nat)
    qed
    have "pow2 (e - 1) * of_int b \<le> pow2 (e - 1) * pow2 (bitLen b)"
      using B pow2_pos[of "e - 1"] by (simp add: mult_left_mono)
    also have "\<dots> = pow2 (bitLen a - 1)"
      by (simp add: pow2_add[symmetric] e_def)
    also have "\<dots> \<le> of_int a" by (rule A)
    finally show ?thesis using b by (simp add: x pos_le_divide_eq)
  qed
  then show ?thesis by (simp add: be)
qed

lemma roundEven_of_int: "roundEven (of_int n) = n"
  by (simp add: roundEven_def)

lemma roundEven_nonneg: "0 \<le> x \<Longrightarrow> 0 \<le> roundEven x"
  by (auto simp: roundEven_def Let_def)

lemma fl64_nonneg: "0 \<le> x \<Longrightarrow> 0 \<le> fl64 x"
proof -
  assume "0 \<le> x"
  then have "0 \<le> roundEven (\<bar>x\<bar> / pow2 (max (binExp \<bar>x\<bar>) (- 1022) - 52))"
    by (intro roundEven_nonneg divide_nonneg_pos pow2_pos) simp
  then show ?thesis using \<open>0 \<le> x\<close> pow2_pos[of "max (binExp \<bar>x\<bar>) (- 1022) - 52"]
    by (simp add: fl64_def Let_def sgn_if)
qed

lemma fl64_dyadic:
  assumes "0 \<le> m" "m < 2 ^ 53" "- 1074 \<le> k"
  shows "fl64 (of_int m * pow2 k) = of_int m * pow2 k"
proof (cases "m = 0")
  case True
  then show ?thesis by (simp add: fl64_def)
next
  case False
  define x where "x = of_int m * pow2 k"
  have m: "0 < m" using assms(1) False by simp
  have x: "0 < x" using m pow2_pos[of k] by (simp add: x_def)
  define E where "E = max (binExp x) (- 1022) - 52"
  have "pow2 (binExp x) \<le> x" using x by (rule binExp_le)
  also have "x < pow2 53 * pow2 k"
  proof -
    have "(of_int m :: rat) < of_int (2 ^ 53)" using assms(2) by (simp only: of_int_less_iff)
    then have "(of_int m :: rat) < pow2 53" by (simp add: pow2_def)
    then show ?thesis using pow2_pos[of k] by (simp add: x_def)
  qed
  also have "\<dots> = pow2 (53 + k)" by (simp add: pow2_add)
  finally have "binExp x < 53 + k" by (rule pow2_less_imp)
  then have E: "E \<le> k" using assms(3) by (simp add: E_def)
  have "x / pow2 E = of_int m * pow2 (k - E)"
  proof -
    have "pow2 k = pow2 (k - E) * pow2 E" by (simp add: pow2_add[symmetric])
    then show ?thesis using pow2_pos[of E] by (simp add: x_def)
  qed
  also have "\<dots> = of_int (m * 2 ^ nat (k - E))" using E by (simp add: pow2_nat)
  finally have r: "roundEven (x / pow2 E) = m * 2 ^ nat (k - E)"
    by (simp only: roundEven_of_int)
  have "fl64 x = of_int (roundEven (x / pow2 E)) * pow2 E"
    using x by (simp add: fl64_def E_def Let_def)
  also have "\<dots> = of_int m * (pow2 (k - E) * pow2 E)"
    using E by (simp add: r pow2_nat)
  also have "\<dots> = x" by (simp add: pow2_add[symmetric] x_def)
  finally show ?thesis by (simp add: x_def)
qed

lemma fl64_of_int: "0 \<le> n \<Longrightarrow> n < 2 ^ 53 \<Longrightarrow> fl64 (of_int n) = of_int n"
  using fl64_dyadic[of n 0] by (simp add: pow2_def)



lemma binExp_less:
  assumes "0 < x"
  shows "x < pow2 (binExp x + 1)"
proof -
  obtain a b where q: "quotient_of x = (a, b)" by (cases "quotient_of x")
  have b: "0 < b" using q by (rule quotient_of_denom_pos)
  have x: "x = of_int a / of_int b" using q by (rule quotient_of_div)
  have a: "0 < a" using assms b by (simp add: x zero_less_divide_iff)
  define e where "e = bitLen a - bitLen b"
  have be: "binExp x = (if pow2 e \<le> x then e else e - 1)"
    by (simp add: binExp_def q e_def Let_def)
  have "x < pow2 (e + 1)"
  proof -
    have la: "a < 2 ^ nat (bitLen a)" and la1: "1 \<le> bitLen a"
      using bitLen_bounds[OF a] by auto
    have lb: "2 ^ nat (bitLen b - 1) \<le> b" and lb1: "1 \<le> bitLen b"
      using bitLen_bounds[OF b] by auto
    have A: "of_int a < pow2 (bitLen a)"
    proof -
      have "(of_int a :: rat) < of_int (2 ^ nat (bitLen a))"
        using la by (simp only: of_int_less_iff)
      then show ?thesis using la1 by (simp add: pow2_nat)
    qed
    have B: "pow2 (bitLen b - 1) \<le> (of_int b :: rat)"
    proof -
      have "(of_int (2 ^ nat (bitLen b - 1)) :: rat) \<le> of_int b"
        using lb by (simp only: of_int_le_iff)
      then show ?thesis using lb1 by (simp add: pow2_nat)
    qed
    have "of_int a < pow2 (bitLen a)" by (rule A)
    also have "\<dots> = pow2 (e + 1) * pow2 (bitLen b - 1)"
      by (simp add: pow2_add[symmetric] e_def)
    also have "\<dots> \<le> pow2 (e + 1) * of_int b"
      using B pow2_pos[of "e + 1"] by (simp add: mult_left_mono)
    finally show ?thesis using b by (simp add: x pos_divide_less_eq)
  qed
  then show ?thesis by (auto simp: be)
qed

lemma roundEven_error: "\<bar>of_int (roundEven y) - y\<bar> \<le> 1 / 2"
proof -
  define r where "r = y - of_int \<lfloor>y\<rfloor>"
  have r: "0 \<le> r" "r < 1" by (simp_all add: r_def) linarith+
  have lo: "roundEven y = \<lfloor>y\<rfloor> \<Longrightarrow> of_int (roundEven y) - y = - r"
    by (simp add: r_def)
  have hi: "roundEven y = \<lfloor>y\<rfloor> + 1 \<Longrightarrow> of_int (roundEven y) - y = 1 - r"
    by (simp add: r_def)
  consider "r < 1 / 2" | "1 / 2 < r" | "r = 1 / 2" by linarith
  then show ?thesis
  proof cases
    case 1
    then have "roundEven y = \<lfloor>y\<rfloor>" by (simp add: roundEven_def Let_def r_def)
    then show ?thesis using 1 r lo by simp
  next
    case 2
    then have "roundEven y = \<lfloor>y\<rfloor> + 1" by (simp add: roundEven_def Let_def r_def)
    then show ?thesis using 2 r hi by simp
  next
    case 3
    then have "roundEven y = \<lfloor>y\<rfloor> \<or> roundEven y = \<lfloor>y\<rfloor> + 1"
      by (simp add: roundEven_def Let_def r_def)
    then show ?thesis
    proof
      assume "roundEven y = \<lfloor>y\<rfloor>"
      then show ?thesis using 3 lo by simp
    next
      assume "roundEven y = \<lfloor>y\<rfloor> + 1"
      then show ?thesis using 3 hi by simp
    qed
  qed
qed

lemma fl64_error:
  assumes "pow2 (- 1022) \<le> x"
  shows "\<bar>fl64 x - x\<bar> \<le> x / 2 ^ 53"
proof -
  have x: "0 < x" using assms pow2_pos[of "- 1022"] by linarith
  define e where "e = binExp x"
  have "pow2 (- 1022) < pow2 (e + 1)" using assms binExp_less[OF x] by (simp add: e_def)
  then have e: "- 1022 \<le> e" using pow2_less_imp[of "- 1022" "e + 1"] by simp
  define q where "q = pow2 (e - 52)"
  have q: "0 < q" by (simp add: q_def pow2_pos)
  have f: "fl64 x = of_int (roundEven (x / q)) * q"
    using x e by (simp add: fl64_def Let_def e_def q_def max_def)
  have "fl64 x - x = (of_int (roundEven (x / q)) - x / q) * q"
    using q by (simp add: f algebra_simps)
  then have "\<bar>fl64 x - x\<bar> = \<bar>of_int (roundEven (x / q)) - x / q\<bar> * q"
    using q by (simp add: abs_mult)
  also have "\<dots> \<le> (1 / 2) * q"
    using roundEven_error[of "x / q"] q by (intro mult_right_mono) auto
  also have "\<dots> = pow2 e / 2 ^ 53"
  proof -
    have "pow2 e = pow2 (e - 52) * pow2 52" by (simp add: pow2_add[symmetric])
    then show ?thesis by (simp add: q_def pow2_def)
  qed
  also have "\<dots> \<le> x / 2 ^ 53"
    using binExp_le[OF x] by (simp add: e_def divide_right_mono)
  finally show ?thesis .
qed

lemma pow2_mono: "a \<le> b \<Longrightarrow> pow2 a \<le> pow2 b"
  by (simp add: pow2_powi power_int_increasing)

lemma pow2_tiny: "pow2 (- 1022) \<le> 1 / 2 ^ 30"
proof -
  have "pow2 (- 1022) \<le> pow2 (- 30)" by (rule pow2_mono) simp
  then show ?thesis by (simp add: pow2_def)
qed

lemma fl64_between:
  assumes "pow2 (- 1022) \<le> L" "L \<le> x" "x \<le> U"
  shows "L * (1 - 1 / 2 ^ 53) \<le> fl64 x" "fl64 x \<le> U * (1 + 1 / 2 ^ 53)"
proof -
  have x: "pow2 (- 1022) \<le> x" using assms(1,2) by linarith
  have e: "\<bar>fl64 x - x\<bar> \<le> x / 2 ^ 53" using x by (rule fl64_error)
  have "L * (1 - 1 / 2 ^ 53) \<le> x * (1 - 1 / 2 ^ 53)"
    using assms(2) by (intro mult_right_mono) auto
  also have "\<dots> = x - x / 2 ^ 53" by (simp add: algebra_simps)
  also have "\<dots> \<le> fl64 x" using e by linarith
  finally show "L * (1 - 1 / 2 ^ 53) \<le> fl64 x" .
  have "fl64 x \<le> x + x / 2 ^ 53" using e by linarith
  also have "\<dots> = x * (1 + 1 / 2 ^ 53)" by (simp add: algebra_simps)
  also have "\<dots> \<le> U * (1 + 1 / 2 ^ 53)"
    using assms(3) by (intro mult_right_mono) auto
  finally show "fl64 x \<le> U * (1 + 1 / 2 ^ 53)" .
qed

lemma roundEven_ge_floor: "\<lfloor>z\<rfloor> \<le> roundEven z"
  by (simp add: roundEven_def Let_def)

lemma fl64_ge_int:
  assumes "0 \<le> n" "of_int n \<le> y" "y < 2 ^ 53"
  shows "of_int n \<le> fl64 y"
proof (cases "n = 0")
  case True
  then show ?thesis using assms(2) fl64_nonneg[of y] by simp
next
  case False
  then have n: "1 \<le> n" using assms(1) by simp
  then have "(1 :: rat) \<le> of_int n" by simp
  then have y: "0 < y" using assms(2) by linarith
  define E where "E = max (binExp y) (- 1022) - 52"
  define q where "q = pow2 E"
  have q: "0 < q" by (simp add: q_def pow2_pos)
  have "pow2 (binExp y) \<le> y" using y by (rule binExp_le)
  also have "y < pow2 53" using assms(3) by (simp add: pow2_def)
  finally have "binExp y < 53" by (rule pow2_less_imp)
  then have E: "E \<le> 0" by (simp add: E_def)
  have iq: "1 / q = of_int (2 ^ nat (- E))"
  proof -
    have "pow2 E * pow2 (- E) = 1" by (simp add: pow2_add[symmetric] pow2_def)
    then have "1 / q = pow2 (- E)" using q by (simp add: q_def field_simps)
    then show ?thesis using E by (simp add: pow2_nat)
  qed
  define M where "M = n * 2 ^ nat (- E)"
  have "of_int M = of_int n * (1 / q)" by (simp add: M_def iq)
  also have "\<dots> \<le> y * (1 / q)" using assms(2) q by (intro mult_right_mono) auto
  finally have "of_int M \<le> y / q" by simp
  then have "M \<le> \<lfloor>y / q\<rfloor>" by (simp add: le_floor_iff)
  then have "M \<le> roundEven (y / q)" using roundEven_ge_floor[of "y / q"] by linarith
  then have "(of_int M :: rat) \<le> of_int (roundEven (y / q))" by (simp only: of_int_le_iff)
  then have "of_int M * q \<le> of_int (roundEven (y / q)) * q"
    using q by (intro mult_right_mono) auto
  moreover have "of_int M * q = of_int n"
  proof -
    have "of_int M * q = of_int n * ((1 / q) * q)" by (simp add: M_def iq)
    then show ?thesis using q by simp
  qed
  moreover have "fl64 y = of_int (roundEven (y / q)) * q"
    using y by (simp add: fl64_def Let_def E_def q_def)
  ultimately show ?thesis by simp
qed

subsection \<open>The savings estimate\<close>

lemma sint_diff_exact:
  fixes a b :: "64 word"
  assumes "0 < sint b" "sint b \<le> sint a"
  shows "sint (a - b) = sint a - sint b"
proof -
  have "sint a < 2 ^ 63" using sint_lt[of a] by simp
  then have "- (2 ^ 63) \<le> sint a - sint b" "sint a - sint b < 2 ^ 63"
    using assms by auto
  then have "signed_take_bit 63 (sint a - sint b) = sint a - sint b"
    by (intro signed_take_bit_int_eq_self) auto
  then show ?thesis by (simp add: sint_word_diff)
qed

lemma estimate_zero:
  "ksm = None \<or> ksm = Some Map.empty \<or> sint (ksmGet ksm ''pages_shared'') \<le> 0
     \<or> sint (ksmGet ksm ''pages_sharing'') < sint (ksmGet ksm ''pages_shared'')
   \<Longrightarrow> estimateSavedMiB ps ksm = 0"
  by (auto simp: estimateSavedMiB_def ksmGet_def Let_def)

lemma estimate_unfold:
  assumes "ksm \<noteq> None"
    "0 < sint (ksmGet ksm ''pages_shared'')"
    "sint (ksmGet ksm ''pages_shared'') \<le> sint (ksmGet ksm ''pages_sharing'')"
  shows "estimateSavedMiB ps ksm
    = fl64 (fl64 (fl64 (of_int (sint (ksmGet ksm ''pages_sharing'') - sint (ksmGet ksm ''pages_shared'')))
                  * fl64 (of_int ps)) / (1024 * 1024))"
proof -
  have s: "sint (ksmGet ksm ''pages_sharing'' - ksmGet ksm ''pages_shared'')
        = sint (ksmGet ksm ''pages_sharing'') - sint (ksmGet ksm ''pages_shared'')"
    using assms(2,3) by (rule sint_diff_exact)
  have c: "\<not> (sint (ksmGet ksm ''pages_shared'') \<le> 0 \<or> sint (ksmGet ksm ''pages_sharing'') \<le> 0
      \<or> sint (ksmGet ksm ''pages_sharing'') < sint (ksmGet ksm ''pages_shared''))"
    using assms(2,3) by linarith
  show ?thesis
    unfolding estimateSavedMiB_def Let_def by (simp only: assms(1) c if_False s)
qed

lemma estimate_nonneg: "0 \<le> ps \<Longrightarrow> 0 \<le> estimateSavedMiB ps ksm"
proof (cases "ksm = None \<or> sint (ksmGet ksm ''pages_shared'') \<le> 0
     \<or> sint (ksmGet ksm ''pages_sharing'') < sint (ksmGet ksm ''pages_shared'')")
  case True
  then show ?thesis using estimate_zero[of ksm ps] by auto
next
  case False
  assume ps: "0 \<le> ps"
  from False have h: "ksm \<noteq> None" "0 < sint (ksmGet ksm ''pages_shared'')"
    "sint (ksmGet ksm ''pages_shared'') \<le> sint (ksmGet ksm ''pages_sharing'')" by auto
  define d where "d = sint (ksmGet ksm ''pages_sharing'') - sint (ksmGet ksm ''pages_shared'')"
  have d: "0 \<le> d" using h(3) by (simp add: d_def)
  have "0 \<le> fl64 (of_int d) * fl64 (of_int ps)"
    using d ps by (intro mult_nonneg_nonneg fl64_nonneg) auto
  then have "0 \<le> fl64 (fl64 (of_int d) * fl64 (of_int ps)) / (1024 * 1024)"
    by (intro divide_nonneg_nonneg fl64_nonneg) auto
  then have "0 \<le> fl64 (fl64 (fl64 (of_int d) * fl64 (of_int ps)) / (1024 * 1024))"
    by (rule fl64_nonneg)
  then show ?thesis unfolding estimate_unfold[OF h] d_def .
qed

lemma estimate_value:
  assumes "ksm \<noteq> None"
    "0 < sint (ksmGet ksm ''pages_shared'')"
    "sint (ksmGet ksm ''pages_shared'') \<le> sint (ksmGet ksm ''pages_sharing'')"
    "0 \<le> ps"
    "(sint (ksmGet ksm ''pages_sharing'') - sint (ksmGet ksm ''pages_shared'')) * ps < 2 ^ 53"
  shows "estimateSavedMiB ps ksm
    = of_int ((sint (ksmGet ksm ''pages_sharing'') - sint (ksmGet ksm ''pages_shared'')) * ps) / 2 ^ 20"
proof -
  define d where "d = sint (ksmGet ksm ''pages_sharing'') - sint (ksmGet ksm ''pages_shared'')"
  have d: "0 \<le> d" using assms(3) by (simp add: d_def)
  have e: "estimateSavedMiB ps ksm = fl64 (fl64 (fl64 (of_int d) * fl64 (of_int ps)) / (1024 * 1024))"
    unfolding d_def by (rule estimate_unfold[OF assms(1-3)])
  have p: "d * ps < 2 ^ 53" using assms(5) by (simp add: d_def)
  have "fl64 (of_int d) * fl64 (of_int ps) = of_int (d * ps)"
  proof (cases "d = 0 \<or> ps = 0")
    case True
    then show ?thesis by (auto simp: fl64_def)
  next
    case False
    then have "1 \<le> d" "1 \<le> ps" using d assms(4) by auto
    then have "d \<le> d * ps" "ps \<le> d * ps"
      by (simp_all add: mult_le_cancel_left1 mult_le_cancel_right1)
    then have "d < 2 ^ 53" "ps < 2 ^ 53" using p by auto
    then show ?thesis using d assms(4) by (simp add: fl64_of_int)
  qed
  moreover have n: "0 \<le> d * ps" using d assms(4) by simp
  ultimately have "fl64 (fl64 (of_int d) * fl64 (of_int ps)) = of_int (d * ps)"
    using p by (simp only: fl64_of_int)
  moreover have "(of_int (d * ps) :: rat) / (1024 * 1024) = of_int (d * ps) * pow2 (- 20)"
    by (simp add: pow2_def)
  moreover have "fl64 (of_int (d * ps) * pow2 (- 20)) = of_int (d * ps) * pow2 (- 20)"
    using n p by (intro fl64_dyadic) auto
  ultimately have "estimateSavedMiB ps ksm = of_int (d * ps) * pow2 (- 20)"
    by (simp only: e)
  then show ?thesis by (simp add: d_def pow2_def)
qed

lemma estimate_tolerance:
  assumes "ksm \<noteq> None"
    "0 < sint (ksmGet ksm ''pages_shared'')"
    "sint (ksmGet ksm ''pages_shared'') \<le> sint (ksmGet ksm ''pages_sharing'')"
    "0 \<le> ps"
  shows "\<bar>estimateSavedMiB ps ksm
       - of_int ((sint (ksmGet ksm ''pages_sharing'') - sint (ksmGet ksm ''pages_shared'')) * ps) / 2 ^ 20\<bar>
    \<le> of_int ((sint (ksmGet ksm ''pages_sharing'') - sint (ksmGet ksm ''pages_shared'')) * ps) / 2 ^ 20
       / 2 ^ 50"
proof -
  define d where "d = sint (ksmGet ksm ''pages_sharing'') - sint (ksmGet ksm ''pages_shared'')"
  have d: "0 \<le> d" using assms(3) by (simp add: d_def)
  have e: "estimateSavedMiB ps ksm = fl64 (fl64 (fl64 (of_int d) * fl64 (of_int ps)) / (1024 * 1024))"
    unfolding d_def by (rule estimate_unfold[OF assms(1-3)])
  show ?thesis
  proof (cases "d = 0 \<or> ps = 0")
    case True
    then have "fl64 (of_int d) * fl64 (of_int ps) = 0" by (auto simp: fl64_def)
    then have "estimateSavedMiB ps ksm = 0" by (simp add: e fl64_def)
    then show ?thesis using True by (auto simp: d_def[symmetric])
  next
    case False
    then have d1: "1 \<le> d" and p1: "1 \<le> ps" using d assms(4) by auto
    define k1 :: rat where "k1 = 1 - 1 / 2 ^ 53"
    define k2 :: rat where "k2 = 1 + 1 / 2 ^ 53"
    define P :: rat where "P = of_int d * of_int ps"
    define a where "a = fl64 (of_int d)"
    define b where "b = fl64 (of_int ps)"
    define c where "c = fl64 (a * b)"
    define r where "r = fl64 (c / (1024 * 1024))"
    have k: "1 / 2 \<le> k1" "k1 \<le> 1" "1 \<le> k2" by (simp_all add: k1_def k2_def)
    have rd: "(1 :: rat) \<le> of_int d" "(1 :: rat) \<le> of_int ps" using d1 p1 by simp_all
    have P1: "1 \<le> P"
    proof -
      have "(1 :: rat) * 1 \<le> of_int d * of_int ps" using rd by (intro mult_mono) auto
      then show ?thesis by (simp add: P_def)
    qed
    have t: "pow2 (- 1022) \<le> 1 / 2 ^ 30" by (rule pow2_tiny)
    have t1: "(1 :: rat) / 2 ^ 30 \<le> 1" by simp
    have td: "pow2 (- 1022) \<le> of_int d" using rd(1) t t1 by linarith
    have tp: "pow2 (- 1022) \<le> of_int ps" using rd(2) t t1 by linarith
    have A: "of_int d * k1 \<le> a" "a \<le> of_int d * k2"
      unfolding a_def k1_def k2_def
      using fl64_between[OF td order_refl order_refl] by simp_all
    have B: "of_int ps * k1 \<le> b" "b \<le> of_int ps * k2"
      unfolding b_def k1_def k2_def
      using fl64_between[OF tp order_refl order_refl] by simp_all
    have a0: "0 \<le> of_int d * k1" "0 \<le> of_int ps * k1" using rd k by simp_all
    have "(of_int d * k1) * (of_int ps * k1) \<le> a * b"
      using A(1) B(1) a0 by (intro mult_mono) auto
    then have AB1: "P * k1 ^ 2 \<le> a * b"
      by (simp add: P_def power2_eq_square algebra_simps)
    have "a * b \<le> (of_int d * k2) * (of_int ps * k2)"
      using A B a0 by (intro mult_mono) auto
    then have AB2: "a * b \<le> P * k2 ^ 2"
      by (simp add: P_def power2_eq_square algebra_simps)
    have q1: "1 / 4 \<le> k1 ^ 2"
    proof -
      have "(1 / 2) * (1 / 2) \<le> k1 * k1" using k(1) by (intro mult_mono) auto
      then show ?thesis by (simp add: power2_eq_square)
    qed
    have L1: "1 / 4 \<le> P * k1 ^ 2"
    proof -
      have "1 * (1 / 4) \<le> P * k1 ^ 2" using P1 q1 by (intro mult_mono) auto
      then show ?thesis by simp
    qed
    have C: "P * k1 ^ 2 * k1 \<le> c" "c \<le> P * k2 ^ 2 * k2"
      unfolding c_def k1_def[symmetric] k2_def[symmetric]
      using fl64_between[of "P * k1 ^ 2" "a * b" "P * k2 ^ 2"] AB1 AB2 L1 t
      by (simp_all add: k1_def k2_def)
    have L2: "1 / 8 \<le> P * k1 ^ 2 * k1"
    proof -
      have "(1 / 4) * (1 / 2) \<le> (P * k1 ^ 2) * k1" using L1 k(1) by (intro mult_mono) auto
      then show ?thesis by simp
    qed
    have D: "P * k1 ^ 2 * k1 / (1024 * 1024) \<le> c / (1024 * 1024)"
      "c / (1024 * 1024) \<le> P * k2 ^ 2 * k2 / (1024 * 1024)"
      using C by (simp_all add: divide_right_mono)
    have L3: "pow2 (- 1022) \<le> P * k1 ^ 2 * k1 / (1024 * 1024)"
    proof -
      have "(1 / 8) / (1024 * 1024) \<le> P * k1 ^ 2 * k1 / (1024 * 1024)"
        using L2 by (intro divide_right_mono) auto
      then show ?thesis using t by simp
    qed
    have E: "P * k1 ^ 2 * k1 / (1024 * 1024) * k1 \<le> r" "r \<le> P * k2 ^ 2 * k2 / (1024 * 1024) * k2"
      unfolding r_def
      using fl64_between[OF L3 D] by (simp_all add: k1_def k2_def)
    define X where "X = P / 2 ^ 20"
    have X: "0 \<le> X" using P1 by (simp add: X_def)
    have K1: "1 - 1 / 2 ^ 50 \<le> k1 ^ 4" by (simp add: k1_def power_divide)
    have K2: "k2 ^ 4 \<le> 1 + 1 / 2 ^ 50" by (simp add: k2_def power_divide)
    have "X * (1 - 1 / 2 ^ 50) \<le> X * k1 ^ 4" using X K1 by (intro mult_left_mono)
    also have "\<dots> = P * k1 ^ 2 * k1 / (1024 * 1024) * k1"
      by (simp add: X_def power4_eq_xxxx power2_eq_square)
    finally have lo: "X - X / 2 ^ 50 \<le> r" using E(1) by (simp add: algebra_simps)
    have "r \<le> P * k2 ^ 2 * k2 / (1024 * 1024) * k2" by (rule E(2))
    also have "\<dots> = X * k2 ^ 4"
      by (simp add: X_def power4_eq_xxxx power2_eq_square)
    also have "\<dots> \<le> X * (1 + 1 / 2 ^ 50)" using X K2 by (intro mult_left_mono)
    finally have hi: "r \<le> X + X / 2 ^ 50" by (simp add: algebra_simps)
    have w: "\<bar>r - X\<bar> \<le> X / 2 ^ 50" using lo hi by linarith
    have "estimateSavedMiB ps ksm = r" by (simp only: e r_def c_def a_def b_def)
    moreover have "of_int (d * ps) / 2 ^ 20 = X" by (simp add: X_def P_def)
    ultimately show ?thesis unfolding d_def[symmetric] using w by (simp only:)
  qed
qed

text \<open>
  C1. The estimate is exactly 0 when the map is nil or empty, when \<open>pages_shared\<close> is not
  positive, or when \<open>pages_sharing\<close> is below \<open>pages_shared\<close>. Otherwise it is
  \<open>(pages_sharing - pages_shared) * ps / 2^20\<close> for the page size \<open>ps\<close>: exactly so as
  long as the number of bytes saved is below 2^53, and in every case up to the
  rounding of the four \<^verbatim>\<open>float64\<close> operations, a relative error of at most 2^-50. For a
  page size that is not negative the result is never negative.
\<close>

theorem estimateSavedMiB_cases:
  "(ksm = None \<or> ksm = Some Map.empty \<or> sint (ksmGet ksm ''pages_shared'') \<le> 0
      \<or> sint (ksmGet ksm ''pages_sharing'') < sint (ksmGet ksm ''pages_shared'')
     \<longrightarrow> estimateSavedMiB ps ksm = 0)
   \<and> (ksm \<noteq> None \<and> 0 < sint (ksmGet ksm ''pages_shared'')
      \<and> sint (ksmGet ksm ''pages_shared'') \<le> sint (ksmGet ksm ''pages_sharing'')
      \<and> 0 \<le> ps
     \<longrightarrow> \<bar>estimateSavedMiB ps ksm
          - of_int ((sint (ksmGet ksm ''pages_sharing'') - sint (ksmGet ksm ''pages_shared'')) * ps)
            / 2 ^ 20\<bar>
         \<le> of_int ((sint (ksmGet ksm ''pages_sharing'') - sint (ksmGet ksm ''pages_shared'')) * ps)
            / 2 ^ 20 / 2 ^ 50)
   \<and> (ksm \<noteq> None \<and> 0 < sint (ksmGet ksm ''pages_shared'')
      \<and> sint (ksmGet ksm ''pages_shared'') \<le> sint (ksmGet ksm ''pages_sharing'')
      \<and> 0 \<le> ps
      \<and> (sint (ksmGet ksm ''pages_sharing'') - sint (ksmGet ksm ''pages_shared'')) * ps < 2 ^ 53
     \<longrightarrow> estimateSavedMiB ps ksm
         = of_int ((sint (ksmGet ksm ''pages_sharing'') - sint (ksmGet ksm ''pages_shared'')) * ps)
           / 2 ^ 20)
   \<and> (0 \<le> ps \<longrightarrow> 0 \<le> estimateSavedMiB ps ksm)"
  using estimate_zero[of ksm ps] estimate_value[of ksm ps] estimate_nonneg[of ps ksm]
    estimate_tolerance[of ksm ps]
  by blast

theorem estimateSavedMiB_cases_witness:
  "estimateSavedMiB 4096 (Some Map.empty) = 0
   \<and> estimateSavedMiB 4096 (Some [''pages_shared'' \<mapsto> 10, ''pages_sharing'' \<mapsto> 5]) = 0
   \<and> estimateSavedMiB 4096 (Some [''pages_shared'' \<mapsto> 10, ''pages_sharing'' \<mapsto> 522]) = 2
   \<and> 0 \<le> estimateSavedMiB 4096 (Some [''pages_shared'' \<mapsto> 10, ''pages_sharing'' \<mapsto> 522])"
proof -
  have a: "ksmGet (Some [''pages_shared'' \<mapsto> 10, ''pages_sharing'' \<mapsto> 5]) ''pages_shared'' = 10"
    "ksmGet (Some [''pages_shared'' \<mapsto> 10, ''pages_sharing'' \<mapsto> 5]) ''pages_sharing'' = 5"
    by (simp_all add: ksmGet_def)
  have b: "ksmGet (Some [''pages_shared'' \<mapsto> 10, ''pages_sharing'' \<mapsto> 522]) ''pages_shared'' = 10"
    "ksmGet (Some [''pages_shared'' \<mapsto> 10, ''pages_sharing'' \<mapsto> 522]) ''pages_sharing'' = 522"
    by (simp_all add: ksmGet_def)
  show ?thesis
    using estimateSavedMiB_cases[of "Some Map.empty" 4096]
      estimateSavedMiB_cases[of "Some [''pages_shared'' \<mapsto> 10, ''pages_sharing'' \<mapsto> 5]" 4096]
      estimateSavedMiB_cases[of "Some [''pages_shared'' \<mapsto> 10, ''pages_sharing'' \<mapsto> 522]" 4096]
    by (simp add: a b)
qed

subsection \<open>The dirty pages of a workload\<close>

lemma indexLoop_eq:
  "0 \<le> j \<Longrightarrow> indexLoop ident T D j acc
     = acc @ map (\<lambda>i. dirtyIndex ident T (int i)) [nat j..<nat D]"
proof (induction ident T D j acc rule: indexLoop.induct)
  case (1 ident T D j acc)
  show ?case
  proof (cases "j < D")
    case True
    then have u: "[nat j..<nat D] = nat j # [nat (j + 1)..<nat D]"
      using "1.prems" by (simp add: upt_conv_Cons nat_add_distrib)
    show ?thesis
      using True "1.IH" "1.prems" by (subst indexLoop.simps) (simp add: u)
  next
    case False
    then show ?thesis by (subst indexLoop.simps) simp
  qed
qed

lemma hogIndices_eq:
  "hogIndices ident T p = map (\<lambda>i. dirtyIndex ident T (int i)) [0..<nat (dirtyPages T p)]"
  by (simp add: hogIndices_def Let_def indexLoop_eq)

lemma dirtyIndex_plain:
  assumes "0 \<le> ident" "0 \<le> j" "ident * 1315423911 + j * 2654435761 < 2 ^ 64"
    "0 < T" "T \<le> maxInt64"
  shows "dirtyIndex ident T j = (ident * 1315423911 + j * 2654435761) mod T"
proof -
  have a: "0 \<le> ident * 1315423911" "0 \<le> j * 2654435761" using assms(1,2) by auto
  then have b: "ident * 1315423911 < 2 ^ 64" "j * 2654435761 < 2 ^ 64"
    using assms(3) by linarith+
  have "ident \<le> ident * 1315423911" "j \<le> j * 2654435761" using assms(1,2) by auto
  then have c: "ident < 2 ^ 64" "j < 2 ^ 64" using b by linarith+
  have t: "u64 T = T" using assms(4,5) by (simp add: u64_def maxInt64_def)
  show ?thesis
    unfolding dirtyIndex_def t
    using a b c assms(1-3) by (simp add: u64_def)
qed

lemma dirtyPages_exact:
  assumes "0 \<le> T" "T < 2 ^ 53" "0 \<le> p" "fl64 (p / 100) = p / 100"
    "fl64 (of_int T * (p / 100)) = of_int T * (p / 100)"
  shows "dirtyPages T p = \<lfloor>of_int T * p / 100\<rfloor>"
proof -
  have "fl64 (of_int T) = of_int T" using assms(1,2) by (rule fl64_of_int)
  then have "dirtyPages T p = truncInt (of_int T * (p / 100))"
    by (simp only: dirtyPages_def assms(4,5))
  moreover have "0 \<le> of_int T * (p / 100)" using assms(1,3) by simp
  ultimately show ?thesis by (simp add: truncInt_def)
qed

lemma fl64_half: "fl64 (1 / 2) = 1 / 2"
  using fl64_dyadic[of 1 "- 1"] by (simp add: pow2_def)

lemma dirtyPages_profiles:
  assumes "0 \<le> T" "T < 2 ^ 53" "p = 0 \<or> p = 50 \<or> p = 100"
  shows "dirtyPages T p = \<lfloor>of_int T * p / 100\<rfloor>"
proof -
  have h: "fl64 (of_int T * (1 / 2)) = of_int T * (1 / 2)"
    using fl64_dyadic[of T "- 1"] assms(1,2) by (simp add: pow2_def)
  have o: "fl64 1 = 1" using fl64_of_int[of 1] by simp
  from assms(3) show ?thesis
  proof (elim disjE)
    assume "p = 0"
    then show ?thesis by (simp add: dirtyPages_def fl64_def truncInt_def)
  next
    assume "p = 50"
    then show ?thesis using assms(1,2) h
      by (intro dirtyPages_exact) (simp_all add: fl64_half)
  next
    assume "p = 100"
    then show ?thesis using assms(1,2) o
      by (intro dirtyPages_exact) (simp_all add: fl64_of_int)
  qed
qed

lemma fl64_5_100: "fl64 (5 / 100) = 3602879701896397 / 2 ^ 56"
  by code_simp

lemma dirtyPages_P2:
  assumes "0 \<le> T" "T < 2 ^ 31"
  shows "dirtyPages T 5 = \<lfloor>(of_int T :: rat) * 5 / 100\<rfloor>"
proof (cases "T = 0")
  case True
  then show ?thesis by (simp add: dirtyPages_def fl64_def truncInt_def)
next
  case False
  then have T1: "1 \<le> T" using assms(1) by simp
  define k where "k = T div 20"
  define m where "m = T mod 20"
  have T: "T = 20 * k + m" "0 \<le> m" "m \<le> 19" by (simp_all add: k_def m_def)
  define c :: rat where "c = 3602879701896397 / 2 ^ 56"
  define y :: rat where "y = of_int T * c"
  define t :: rat where "t = of_int T"
  define e1 :: rat where "e1 = t * (1 / 2 ^ 57)"
  define e2 :: rat where "e2 = y / 2 ^ 53"
  have c: "1 / 20 \<le> c" "c \<le> 1 / 20 + 1 / 2 ^ 57" by (simp_all add: c_def)
  have Tr: "1 \<le> t" "t < 2147483648"
    using T1 assms(2) by (simp_all add: t_def)
  have TT: "t = 20 * of_int k + of_int m" "(0 :: rat) \<le> of_int m" "(of_int m :: rat) \<le> 19"
    using T by (simp_all add: t_def)
  have fT: "fl64 (of_int T) = of_int T"
    using assms by (intro fl64_of_int) auto
  have d: "dirtyPages T 5 = truncInt (fl64 y)"
    by (simp only: dirtyPages_def fT fl64_5_100 y_def c_def)
  have y1: "t * (1 / 20) \<le> y" unfolding y_def t_def[symmetric]
    using c(1) Tr(1) by (intro mult_left_mono) auto
  have "y \<le> t * (1 / 20 + 1 / 2 ^ 57)" unfolding y_def t_def[symmetric]
    using c(2) Tr(1) by (intro mult_left_mono) auto
  then have y2: "y \<le> t * (1 / 20) + e1" by (simp add: e1_def algebra_simps)
  have "e1 \<le> 2147483648 * (1 / 2 ^ 57)" unfolding e1_def
    using Tr(2) by (intro mult_right_mono) auto
  then have b1: "e1 \<le> 1 / 1000" by simp
  have lo: "of_int k \<le> y" using TT y1 by linarith
  have y53: "y < 2 ^ 53"
  proof -
    have "y < 2147483649" using y2 b1 Tr by linarith
    then show ?thesis by simp
  qed
  have y0: "1 / 20 \<le> y" using y1 Tr by linarith
  have "e2 \<le> 2147483649 / 2 ^ 53" unfolding e2_def
    using y2 b1 Tr by (intro divide_right_mono) auto
  then have b2: "e2 \<le> 1 / 1000" by simp
  have "0 \<le> k" using T1 by (simp add: k_def pos_imp_zdiv_nonneg_iff)
  then have g: "of_int k \<le> fl64 y" using lo y53 by (rule fl64_ge_int)
  have ty: "pow2 (- 1022) \<le> y"
  proof -
    have "(1 :: rat) / 2 ^ 30 \<le> 1 / 20" by simp
    then show ?thesis using y0 pow2_tiny by linarith
  qed
  have "\<bar>fl64 y - y\<bar> \<le> e2" unfolding e2_def using ty by (rule fl64_error)
  then have "fl64 y \<le> y + e2" by linarith
  also have "\<dots> < of_int k + 1" using TT y2 b1 b2 by linarith
  finally have h: "fl64 y < of_int k + 1" .
  have "\<lfloor>fl64 y\<rfloor> = k" using g h by (intro floor_unique) auto
  moreover have "0 \<le> fl64 y" using g \<open>0 \<le> k\<close> by (meson of_int_0_le_iff order_trans)
  moreover have "\<lfloor>(of_int T :: rat) * 5 / 100\<rfloor> = k"
  proof -
    have "(of_int T :: rat) * 5 / 100 = of_int T / of_int 20" by simp
    then show ?thesis by (simp only: floor_divide_of_int_eq k_def)
  qed
  ultimately show ?thesis by (simp add: d truncInt_def)
qed

lemma dirtyPages_6400_29: "dirtyPages 6400 29 = 1855"
  by code_simp

lemma dirtyPages_768_50: "dirtyPages 768 50 = 384"
  by code_simp

lemma dirtyIndex_wrapped: "dirtyIndex 17179869184 768 0 = 512"
  by code_simp

text \<open>
  C5, as the code has it. The number of indices is \<open>dirtyPages T p\<close>, which is computed
  in \<^verbatim>\<open>float64\<close>; it is \<open>floor (T * p / 100)\<close> whenever \<open>p / 100\<close> and its product with \<open>T\<close>
  are representable, and also for the fractions 0, 5, 50 and 100 with fewer than 2^31
  pages. The index at
  position \<open>i\<close> is \<open>dirtyIndex ident T i\<close>, computed modulo 2^64 before the reduction
  modulo \<open>T\<close>; it is \<open>(ident * 1315423911 + i * 2654435761) mod T\<close> when \<open>ident\<close> is not
  negative and the sum is below 2^64. The result is a function of its three inputs.
\<close>

theorem hogIndices_selection:
  "length (hogIndices ident T p) = nat (dirtyPages T p)
   \<and> (\<forall>i. i < nat (dirtyPages T p) \<longrightarrow> hogIndices ident T p ! i = dirtyIndex ident T (int i))
   \<and> (0 \<le> ident \<and> 0 \<le> j \<and> ident * 1315423911 + j * 2654435761 < 2 ^ 64
        \<and> 0 < T \<and> T \<le> maxInt64
      \<longrightarrow> dirtyIndex ident T j = (ident * 1315423911 + j * 2654435761) mod T)
   \<and> (0 \<le> T \<and> T < 2 ^ 53 \<and> 0 \<le> p \<and> fl64 (p / 100) = p / 100
        \<and> fl64 (of_int T * (p / 100)) = of_int T * (p / 100)
      \<longrightarrow> dirtyPages T p = \<lfloor>of_int T * p / 100\<rfloor>)
   \<and> (0 \<le> T \<and> T < 2 ^ 31 \<and> (p = 0 \<or> p = 5 \<or> p = 50 \<or> p = 100)
      \<longrightarrow> dirtyPages T p = \<lfloor>of_int T * p / 100\<rfloor>)"
proof -
  have "0 \<le> T \<and> T < 2 ^ 31 \<and> (p = 0 \<or> p = 5 \<or> p = 50 \<or> p = 100)
      \<longrightarrow> dirtyPages T p = \<lfloor>of_int T * p / 100\<rfloor>"
  proof
    assume a: "0 \<le> T \<and> T < 2 ^ 31 \<and> (p = 0 \<or> p = 5 \<or> p = 50 \<or> p = 100)"
    then have "T < 2 ^ 53" by simp
    then show "dirtyPages T p = \<lfloor>of_int T * p / 100\<rfloor>"
      using a dirtyPages_profiles[of T p] dirtyPages_P2[of T] by auto
  qed
  then show ?thesis
    using dirtyIndex_plain[of ident j T] dirtyPages_exact[of T p]
    by (simp add: hogIndices_eq)
qed

theorem hogIndices_selection_witness:
  "length (hogIndices 3 8 50) = 4
   \<and> hogIndices 3 8 50 ! 2 = (3 * 1315423911 + 2 * 2654435761) mod 8
   \<and> fl64 (50 / 100) = 50 / 100 \<and> fl64 (of_int 8 * (50 / 100)) = of_int 8 * (50 / 100)
   \<and> dirtyPages 8 50 = \<lfloor>of_int 8 * 50 / 100\<rfloor>"
proof -
  have f: "fl64 (50 / 100) = 50 / 100" "fl64 (of_int 8 * (50 / 100)) = of_int 8 * (50 / 100)"
    by code_simp+
  show ?thesis
    using hogIndices_selection[of 3 8 50 2] f by (simp add: maxInt64_def)
qed

text \<open>
  A workload of 25 MiB in pages of 4096 bytes has 6400 pages; with a dirty fraction of
  29 percent the rounding of \<open>29 / 100\<close> gives 1855 indices and not 1856. With
  \<open>--id 17179869184\<close> (2^34) and 768 pages, the first index is 512 after the wrap-around
  and 0 without it.
\<close>

theorem hogIndices_counterexample:
  "length (hogIndices 0 6400 29) = 1855 \<and> \<lfloor>(6400 :: rat) * 29 / 100\<rfloor> = 1856
   \<and> hogIndices 17179869184 768 50 ! 0 = 512
   \<and> (17179869184 * 1315423911 + 0 * 2654435761) mod 768 = (0 :: int)"
proof -
  have "\<lfloor>(6400 :: rat) * 29 / 100\<rfloor> = 1856" by simp
  moreover have "length (hogIndices 0 6400 29) = 1855"
    by (simp add: hogIndices_eq dirtyPages_6400_29)
  moreover have "hogIndices 17179869184 768 50 ! 0 = 512"
    by (simp add: hogIndices_eq dirtyPages_768_50 dirtyIndex_wrapped)
  ultimately show ?thesis by simp
qed

subsection \<open>The checks before the allocation\<close>

text \<open>
  A memory size that is not positive, a dirty fraction outside 0..100 and a size
  above 2^31 - 1 bytes are rejected, the last as long as the number of MiB is below
  2^43, so that the multiplication does not wrap around.
\<close>

lemma cmdHog_rejects:
  assumes "memMiB \<le> 0 \<or> dirtyPct < 0 \<or> 100 < dirtyPct
     \<or> (maxInt32 < memMiB * 1024 * 1024 \<and> memMiB < 2 ^ 43)"
  shows "\<exists>e. cmdHog_alloc memMiB dirtyPct = HogError e"
proof (cases "memMiB \<le> 0 \<or> dirtyPct < 0 \<or> 100 < dirtyPct")
  case True
  then show ?thesis by (auto simp: cmdHog_alloc_def)
next
  case False
  with assms have b: "maxInt32 < memMiB * 1024 * 1024" "memMiB < 2 ^ 43" "0 < memMiB" by auto
  have "wrap64 (memMiB * 1024) = memMiB * 1024"
    using b(2,3) by (intro wrap64_id) (auto simp: maxInt64_def)
  moreover have "wrap64 (memMiB * 1024 * 1024) = memMiB * 1024 * 1024"
    using b(2,3) by (intro wrap64_id) (auto simp: maxInt64_def)
  ultimately have "hogSize memMiB = memMiB * 1024 * 1024" by (simp add: hogSize_def)
  then show ?thesis using b(1) False by (simp add: cmdHog_alloc_def Let_def)
qed

text \<open>
  C9 at \<^verbatim>\<open>--mem-mib 17592186044417\<close> (2^44 + 1): the byte size wraps around to 2^20, the
  check against \<^verbatim>\<open>math.MaxInt32\<close> passes and a buffer of 1 MiB is allocated.
\<close>

theorem cmdHog_oversized_accepted:
  "maxInt32 < 17592186044417 * 1024 * 1024
   \<and> cmdHog_alloc 17592186044417 0 = HogBuffer 1048576"
  by code_simp


subsection \<open>Teardown\<close>

lemma ProcessSignal_cases:
  "ProcessSignal w pid sig = (w, status w pid \<noteq> Reaped)
   \<or> (status w pid = Running
       \<and> ProcessSignal w pid sig = (w\<lparr>status := (status w)(pid := Zombie)\<rparr>, True))"
  by (auto simp: ProcessSignal_def split: pstatus.splits)


lemma ProcessSignal_status:
  "status (fst (ProcessSignal w pid sig)) p = Reaped \<longleftrightarrow> status w p = Reaped"
  using ProcessSignal_cases[of w pid sig] by (auto split: if_splits)

lemma ProcessSignal_other:
  "p \<noteq> pid \<Longrightarrow> status (fst (ProcessSignal w pid sig)) p = status w p"
  using ProcessSignal_cases[of w pid sig] by auto

lemma ProcessSignal_rest:
  "world.more (fst (ProcessSignal w pid sig)) = world.more w"
  "now (fst (ProcessSignal w pid sig)) = now w"
  "launched (fst (ProcessSignal w pid sig)) = launched w"
  "ignoresTerm (fst (ProcessSignal w pid sig)) = ignoresTerm w"
  "launchFails (fst (ProcessSignal w pid sig)) = launchFails w"
  "cancelAt (fst (ProcessSignal w pid sig)) = cancelAt w"
  using ProcessSignal_cases[of w pid sig] by auto

lemma kill_wait:
  "\<exists>w' ok. ProcessWait (fst (ProcessKill w pid)) pid = Some (w', ok)
     \<and> status w' = (status w)(pid := Reaped)
     \<and> w' = w\<lparr>status := status w'\<rparr>"
  by (cases "status w pid") (auto simp: ProcessKill_def ProcessSignal_def ProcessWait_def)


lemma ProcessSignal_only_status:
  "fst (ProcessSignal w pid sig) = w\<lparr>status := status (fst (ProcessSignal w pid sig))\<rparr>"
  using ProcessSignal_cases[of w pid sig] by auto

lemma pids_Nil [simp]: "pids [] = {}"
  by (simp add: pids_def)

lemma pids_Cons:
  "pids (c # cs) = (case handlePid c of None \<Rightarrow> {} | Some p \<Rightarrow> {p}) \<union> pids cs"
  by (auto simp: pids_def split: option.splits)

lemma pids_append: "pids (xs @ ys) = pids xs \<union> pids ys"
  by (auto simp: pids_def)

lemma termAll_props:
  "(status (termAll w cs) p = Reaped \<longleftrightarrow> status w p = Reaped)
   \<and> (p \<notin> pids cs \<longrightarrow> status (termAll w cs) p = status w p)
   \<and> termAll w cs = w\<lparr>status := status (termAll w cs)\<rparr>"
proof (induction cs arbitrary: w)
  case Nil
  then show ?case by simp
next
  case (Cons c cs)
  show ?case
  proof (cases "handlePid c")
    case None
    then show ?thesis using Cons[of w] by (simp add: pids_Cons)
  next
    case (Some pid)
    define w1 where "w1 = fst (ProcessSignal w pid SIGTERM)"
    have t: "termAll w (c # cs) = termAll w1 cs" by (simp add: Some w1_def)
    have o: "w1 = w\<lparr>status := status w1\<rparr>"
      unfolding w1_def by (rule ProcessSignal_only_status)
    have ih: "(status (termAll w1 cs) p = Reaped \<longleftrightarrow> status w1 p = Reaped)"
      "p \<notin> pids cs \<longrightarrow> status (termAll w1 cs) p = status w1 p"
      "termAll w1 cs = w1\<lparr>status := status (termAll w1 cs)\<rparr>"
      using Cons[of w1] by auto
    have "termAll w1 cs = w\<lparr>status := status (termAll w1 cs)\<rparr>"
      by (subst ih(3), subst o) simp
    moreover have "status w1 p = Reaped \<longleftrightarrow> status w p = Reaped"
      unfolding w1_def by (rule ProcessSignal_status)
    moreover have "p \<notin> pids (c # cs) \<longrightarrow> status w1 p = status w p"
      unfolding w1_def by (auto simp: pids_Cons Some ProcessSignal_other)
    ultimately show ?thesis unfolding t using ih(1,2) by (auto simp: pids_Cons Some)
  qed
qed





lemma pollLoop_props:
  "\<exists>t. pollLoop w dl cmds = w\<lparr>now := t\<rparr> \<and> now w \<le> t
     \<and> (now w \<le> dl \<and> (dl - now w) mod (100 * Millisecond) = 0 \<longrightarrow> t \<le> dl)"
proof (induction w dl cmds rule: pollLoop.induct)
  case (1 w dl cmds)
  show ?case
  proof (cases "now w < dl \<and> \<not> allDone w cmds")
    case False
    then have "pollLoop w dl cmds = w" by (subst pollLoop.simps) auto
    then have "pollLoop w dl cmds = w\<lparr>now := now w\<rparr>" by simp
    then show ?thesis by (intro exI[of _ "now w"]) auto
  next
    case True
    define w1 where "w1 = w\<lparr>now := now w + 100 * Millisecond\<rparr>"
    have p: "pollLoop w dl cmds = pollLoop w1 dl cmds"
      using True by (subst pollLoop.simps) (simp add: w1_def)
    obtain t where t: "pollLoop w1 dl cmds = w1\<lparr>now := t\<rparr>" "now w1 \<le> t"
      "now w1 \<le> dl \<and> (dl - now w1) mod (100 * Millisecond) = 0 \<longrightarrow> t \<le> dl"
      using "1.IH"[of ] True unfolding w1_def by blast
    have s: "0 < 100 * Millisecond" by (simp add: Millisecond_def)
    have "now w \<le> dl \<and> (dl - now w) mod (100 * Millisecond) = 0 \<longrightarrow>
          now w1 \<le> dl \<and> (dl - now w1) mod (100 * Millisecond) = 0"
    proof
      assume a: "now w \<le> dl \<and> (dl - now w) mod (100 * Millisecond) = 0"
      then have "100 * Millisecond dvd dl - now w" by (simp add: dvd_eq_mod_eq_0)
      moreover have "0 < dl - now w" using True by simp
      ultimately have "100 * Millisecond \<le> dl - now w" by (rule zdvd_imp_le)
      moreover have "(dl - (now w + 100 * Millisecond)) mod (100 * Millisecond) = 0"
      proof -
        have "100 * Millisecond dvd (dl - now w) - 100 * Millisecond"
          using \<open>100 * Millisecond dvd dl - now w\<close> by (rule dvd_diff) simp
        moreover have "(dl - now w) - 100 * Millisecond = dl - (now w + 100 * Millisecond)"
          by simp
        ultimately show ?thesis by (simp only: dvd_eq_mod_eq_0)
      qed
      ultimately show "now w1 \<le> dl \<and> (dl - now w1) mod (100 * Millisecond) = 0"
        by (simp add: w1_def)
    qed
    then have "now w \<le> dl \<and> (dl - now w) mod (100 * Millisecond) = 0 \<longrightarrow> t \<le> dl"
      using t(3) by (simp only: imp_conjL) iprover
    moreover have "now w \<le> t" using t(2) s by (simp add: w1_def)
    moreover have "pollLoop w dl cmds = w\<lparr>now := t\<rparr>"
      unfolding p t(1) by (simp add: w1_def)
    ultimately show ?thesis by blast
  qed
qed

lemma killAll_props:
  "\<exists>w'. killAll w cs = Some w'
     \<and> (\<forall>p. status w' p = (if p \<in> pids cs then Reaped else status w p))
     \<and> w' = w\<lparr>status := status w'\<rparr>"
proof (induction cs arbitrary: w)
  case Nil
  then show ?case by simp
next
  case (Cons c cs)
  show ?case
  proof (cases "handlePid c")
    case None
    then show ?thesis using Cons[of w] by (simp add: pids_Cons)
  next
    case (Some pid)
    obtain w1 ok where k: "ProcessWait (fst (ProcessKill w pid)) pid = Some (w1, ok)"
      "status w1 = (status w)(pid := Reaped)" "w1 = w\<lparr>status := status w1\<rparr>"
      using kill_wait[of w pid] by blast
    obtain w' where w': "killAll w1 cs = Some w'"
      "\<forall>p. status w' p = (if p \<in> pids cs then Reaped else status w1 p)"
      "w' = w1\<lparr>status := status w'\<rparr>"
      using Cons[of w1] by blast
    have "killAll w (c # cs) = Some w'" by (simp add: Some k(1) w'(1))
    moreover have "\<forall>p. status w' p = (if p \<in> pids (c # cs) then Reaped else status w p)"
      using w'(2) by (auto simp: pids_Cons Some k(2))
    moreover have "w' = w\<lparr>status := status w'\<rparr>"
      by (subst w'(3), subst k(3)) simp
    ultimately show ?thesis by blast
  qed
qed


lemma stopHogs_props:
  "\<exists>w'. stopHogs w cmds = Some (w', None)
     \<and> (\<forall>p. status w' p = (if p \<in> pids cmds then Reaped else status w p))
     \<and> now w \<le> now w' \<and> now w' \<le> now w + 5 * Second
     \<and> w' = w\<lparr>status := status w', now := now w'\<rparr>"
proof -
  define w1 where "w1 = termAll w cmds"
  have t: "\<And>p. p \<notin> pids cmds \<longrightarrow> status w1 p = status w p" "w1 = w\<lparr>status := status w1\<rparr>"
    using termAll_props[of w cmds] by (auto simp: w1_def)
  have n1: "now w1 = now w" by (subst t(2)) simp
  obtain t2 where p: "pollLoop w1 (now w1 + 5 * Second) cmds = w1\<lparr>now := t2\<rparr>" "now w1 \<le> t2"
    "t2 \<le> now w1 + 5 * Second"
    using pollLoop_props[of w1 "now w1 + 5 * Second" cmds]
    by (auto simp: Second_def Millisecond_def)
  define w2 where "w2 = w1\<lparr>now := t2\<rparr>"
  obtain w3 where k: "killAll w2 cmds = Some w3"
    "\<forall>p. status w3 p = (if p \<in> pids cmds then Reaped else status w2 p)"
    "w3 = w2\<lparr>status := status w3\<rparr>"
    using killAll_props[of w2 cmds] by blast
  have "stopHogs w cmds = Some (w3, None)"
    by (simp add: stopHogs_def Let_def w1_def[symmetric] p(1) w2_def[symmetric] k(1))
  moreover have "\<forall>p. status w3 p = (if p \<in> pids cmds then Reaped else status w p)"
    using k(2) t(1) by (auto simp: w2_def)
  moreover have n3: "now w3 = t2" by (subst k(3)) (simp add: w2_def)
  moreover have "w3 = w\<lparr>status := status w3, now := now w3\<rparr>"
    by (subst k(3), simp add: w2_def n3, subst t(2)) simp
  ultimately show ?thesis using p(2,3) n1 by auto
qed






subsection \<open>Launching a batch\<close>

lemma cmdStart_cases:
  "(cmdStart w c = (w\<lparr>launched := launched w + 1\<rparr>,
                    Inl (if ctxDone w then ErrCanceled else ErrStart (launched w)))
      \<and> (ctxDone w \<or> launchFails w (launched w)))
   \<or> (cmdStart w c = (w\<lparr>launched := launched w + 1, status := (status w)(launched w := Running)\<rparr>,
                      Inr (c\<lparr>Process := Some (launched w)\<rparr>))
      \<and> \<not> ctxDone w \<and> \<not> launchFails w (launched w))"
  by (auto simp: cmdStart_def Let_def)

lemma live_mono_upd: "live (w\<lparr>status := (status w)(k := Running)\<rparr>) \<subseteq> live w \<union> {k}"
  by (auto simp: live_def)

lemma startLoop_props:
  "\<exists>w' r. startLoop w cfg dp rd i n cmds = Some (w', r)
     \<and> w' = w\<lparr>status := status w', now := now w', launched := launched w'\<rparr>
     \<and> now w \<le> now w' \<and> launched w \<le> launched w'
     \<and> (case r of
           Inl e \<Rightarrow> live w' \<subseteq> live w - pids cmds
         | Inr cmds' \<Rightarrow> live w' \<subseteq> live w \<union> pids cmds' \<and> pids cmds \<subseteq> pids cmds' \<and> now w' = now w)"
proof (induction w cfg dp rd i n cmds rule: startLoop.induct)
  case (1 w cfg dp rd i n cmds)
  define c where "c = \<lparr>Args = (MemMiB cfg, i, dp, rd div Millisecond),
                       Process = None, ProcessState = None\<rparr>"
  show ?case
  proof (cases "i < n")
    case False
    then have "startLoop w cfg dp rd i n cmds = Some (w, Inr cmds)"
      by (subst startLoop.simps) simp
    then show ?thesis by simp
  next
    case True
    consider
      (fail) "cmdStart w c = (w\<lparr>launched := launched w + 1\<rparr>,
                    Inl (if ctxDone w then ErrCanceled else ErrStart (launched w)))"
    | (ok) "cmdStart w c
          = (w\<lparr>launched := launched w + 1, status := (status w)(launched w := Running)\<rparr>,
             Inr (c\<lparr>Process := Some (launched w)\<rparr>))"
      using cmdStart_cases[of w c] by blast
    then show ?thesis
    proof cases
      case fail
      note cs = fail
      define w1 where "w1 = w\<lparr>launched := launched w + 1\<rparr>"
      obtain w2 where s: "stopHogs w1 cmds = Some (w2, None)"
        "\<forall>p. status w2 p = (if p \<in> pids cmds then Reaped else status w1 p)"
        "now w1 \<le> now w2" "w2 = w1\<lparr>status := status w2, now := now w2\<rparr>"
        using stopHogs_props[of w1 cmds] by blast
      have r: "startLoop w cfg dp rd i n cmds
               = Some (w2, Inl (if ctxDone w then ErrCanceled else ErrStart (launched w)))"
        using True cs s(1) by (subst startLoop.simps) (simp add: c_def w1_def)
      have l: "launched w2 = launched w + 1" by (subst s(4)) (simp add: w1_def)
      have "w2 = w\<lparr>status := status w2, now := now w2, launched := launched w2\<rparr>"
        unfolding l by (subst s(4)) (simp add: w1_def)
      moreover have "live w2 \<subseteq> live w - pids cmds"
        using s(2) by (auto simp: live_def w1_def)
      moreover have "now w \<le> now w2" using s(3) by (simp add: w1_def)
      ultimately show ?thesis using r l by simp
    next
      case ok
      note cs = ok
      define w1 where "w1 = w\<lparr>launched := launched w + 1, status := (status w)(launched w := Running)\<rparr>"
      define cmd where "cmd = c\<lparr>Process := Some (launched w)\<rparr>"
      have r: "startLoop w cfg dp rd i n cmds = startLoop w1 cfg dp rd (i + 1) n (cmds @ [Some cmd])"
        using True cs by (subst startLoop.simps) (simp add: c_def w1_def cmd_def)
      obtain w' r' where ih: "startLoop w1 cfg dp rd (i + 1) n (cmds @ [Some cmd]) = Some (w', r')"
        "w' = w1\<lparr>status := status w', now := now w', launched := launched w'\<rparr>"
        "now w1 \<le> now w'" "launched w1 \<le> launched w'"
        "case r' of
           Inl e \<Rightarrow> live w' \<subseteq> live w1 - pids (cmds @ [Some cmd])
         | Inr cmds' \<Rightarrow> live w' \<subseteq> live w1 \<union> pids cmds'
              \<and> pids (cmds @ [Some cmd]) \<subseteq> pids cmds' \<and> now w' = now w1"
        using "1.IH"[of w1 "Inr cmd" cmd] True cs
        unfolding c_def[symmetric] w1_def[symmetric] cmd_def[symmetric] by auto
      have pc: "pids (cmds @ [Some cmd]) = pids cmds \<union> {launched w}"
        by (simp add: pids_append pids_Cons handlePid_def cmd_def)
      have l1: "live w1 \<subseteq> live w \<union> {launched w}" by (auto simp: live_def w1_def)
      have "w' = w\<lparr>status := status w', now := now w', launched := launched w'\<rparr>"
        by (subst ih(2)) (simp add: w1_def)
      moreover have "now w \<le> now w'" "launched w \<le> launched w'"
        using ih(3,4) by (simp_all add: w1_def)
      moreover have "case r' of
           Inl e \<Rightarrow> live w' \<subseteq> live w - pids cmds
         | Inr cmds' \<Rightarrow> live w' \<subseteq> live w \<union> pids cmds' \<and> pids cmds \<subseteq> pids cmds' \<and> now w' = now w"
      proof (cases r')
        case (Inl e)
        then show ?thesis using ih(5) l1 by (auto simp: pc)
      next
        case (Inr cmds')
        then have "live w' \<subseteq> live w1 \<union> pids cmds'" "pids cmds \<union> {launched w} \<subseteq> pids cmds'"
          "now w' = now w1" using ih(5) by (auto simp: pc)
        then show ?thesis using Inr l1 by (auto simp: w1_def)
      qed
      ultimately show ?thesis unfolding r using ih(1) by simp
    qed
  qed
qed


lemma cmdStart_fail:
  "\<not> ctxDone w \<Longrightarrow> launchFails w (launched w) \<Longrightarrow>
   cmdStart w c = (w\<lparr>launched := launched w + 1\<rparr>, Inl (ErrStart (launched w)))"
  by (simp add: cmdStart_def Let_def)

lemma cmdStart_ok:
  "\<not> ctxDone w \<Longrightarrow> \<not> launchFails w (launched w) \<Longrightarrow>
   cmdStart w c = (w\<lparr>launched := launched w + 1, status := (status w)(launched w := Running)\<rparr>,
                   Inr (c\<lparr>Process := Some (launched w)\<rparr>))"
  by (simp add: cmdStart_def Let_def)

lemma startLoop_fails:
  assumes "\<not> ctxDone w" "\<forall>k<m. \<not> launchFails w (launched w + k)"
    "launchFails w (launched w + m)" "i + int m < n"
  shows "\<exists>w'. startLoop w cfg dp rd i n cmds = Some (w', Inl (ErrStart (launched w + m)))
      \<and> launched w' = launched w + m + 1
      \<and> (\<forall>p. status w' p
           = (if p \<in> pids cmds \<or> (launched w \<le> p \<and> p < launched w + m) then Reaped
              else status w p))"
  using assms
proof (induction m arbitrary: w i cmds)
  case 0
  define c where "c = \<lparr>Args = (MemMiB cfg, i, dp, rd div Millisecond),
                       Process = None, ProcessState = None\<rparr>"
  define w1 where "w1 = w\<lparr>launched := launched w + 1\<rparr>"
  have cs: "cmdStart w c = (w1, Inl (ErrStart (launched w)))"
    using 0 by (simp add: cmdStart_fail w1_def)
  obtain w2 where s: "stopHogs w1 cmds = Some (w2, None)"
    "\<forall>p. status w2 p = (if p \<in> pids cmds then Reaped else status w1 p)"
    "w2 = w1\<lparr>status := status w2, now := now w2\<rparr>"
    using stopHogs_props[of w1 cmds] by blast
  have "startLoop w cfg dp rd i n cmds = Some (w2, Inl (ErrStart (launched w)))"
    using 0(4) cs s(1) by (subst startLoop.simps) (simp add: c_def)
  moreover have "launched w2 = launched w + 1" by (subst s(3)) (simp add: w1_def)
  moreover have "\<forall>p. status w2 p = (if p \<in> pids cmds then Reaped else status w p)"
    using s(2) by (simp add: w1_def)
  ultimately show ?case by auto
next
  case (Suc m)
  define c where "c = \<lparr>Args = (MemMiB cfg, i, dp, rd div Millisecond),
                       Process = None, ProcessState = None\<rparr>"
  define w1 where "w1 = w\<lparr>launched := launched w + 1, status := (status w)(launched w := Running)\<rparr>"
  define cmd where "cmd = c\<lparr>Process := Some (launched w)\<rparr>"
  have nf: "\<not> launchFails w (launched w)" using Suc.prems(2) by (auto dest: spec[of _ 0])
  have cs: "cmdStart w c = (w1, Inr cmd)"
    using Suc.prems(1) nf by (simp add: cmdStart_ok w1_def cmd_def)
  have r: "startLoop w cfg dp rd i n cmds = startLoop w1 cfg dp rd (i + 1) n (cmds @ [Some cmd])"
    using Suc.prems(4) cs by (subst startLoop.simps) (simp add: c_def)
  have a1: "\<not> ctxDone w1"
    using Suc.prems(1) by (simp add: ctxDone_def w1_def split: option.splits)
  have a2: "\<forall>k<m. \<not> launchFails w1 (launched w1 + k)"
  proof (intro allI impI)
    fix k assume "k < m"
    then have "Suc k < Suc m" by simp
    then have "\<not> launchFails w (launched w + Suc k)" using Suc.prems(2) by blast
    then show "\<not> launchFails w1 (launched w1 + k)" by (simp add: w1_def)
  qed
  have a3: "launchFails w1 (launched w1 + m)" using Suc.prems(3) by (simp add: w1_def)
  have a4: "(i + 1) + int m < n" using Suc.prems(4) by simp
  obtain w' where ih: "startLoop w1 cfg dp rd (i + 1) n (cmds @ [Some cmd])
        = Some (w', Inl (ErrStart (launched w1 + m)))"
    "launched w' = launched w1 + m + 1"
    "\<forall>p. status w' p
        = (if p \<in> pids (cmds @ [Some cmd]) \<or> (launched w1 \<le> p \<and> p < launched w1 + m) then Reaped
           else status w1 p)"
    using Suc.IH[OF a1 a2 a3 a4, of "cmds @ [Some cmd]"] by blast
  have pc: "pids (cmds @ [Some cmd]) = pids cmds \<union> {launched w}"
    by (simp add: pids_append pids_Cons handlePid_def cmd_def)
  have l1: "launched w1 = launched w + 1" by (simp add: w1_def)
  have "\<forall>p. status w' p
        = (if p \<in> pids cmds \<or> (launched w \<le> p \<and> p < launched w + Suc m) then Reaped
           else status w p)"
  proof
    fix p
    show "status w' p
        = (if p \<in> pids cmds \<or> (launched w \<le> p \<and> p < launched w + Suc m) then Reaped
           else status w p)"
    proof (cases "p \<in> pids cmds \<or> (launched w \<le> p \<and> p < launched w + Suc m)")
      case True
      then have t: "p \<in> pids (cmds @ [Some cmd]) \<or> (launched w1 \<le> p \<and> p < launched w1 + m)"
        unfolding pc l1 by auto
      have "status w' p = Reaped" using spec[OF ih(3), of p] by (simp only: t if_True)
      then show ?thesis by (simp only: True if_True)
    next
      case False
      then have f: "\<not> (p \<in> pids (cmds @ [Some cmd]) \<or> (launched w1 \<le> p \<and> p < launched w1 + m))"
        unfolding pc l1 by auto
      have "status w' p = status w1 p" using spec[OF ih(3), of p] by (simp only: f if_False)
      moreover have "status w1 p = status w p" using False by (auto simp: w1_def)
      ultimately show ?thesis by (simp only: False if_False)
    qed
  qed
  then show ?case unfolding r using ih(1,2) by (simp add: l1)
qed

lemma startHogs_props:
  "\<exists>w' r. startHogs w cfg n = Some (w', r)
     \<and> w' = w\<lparr>status := status w', now := now w', launched := launched w'\<rparr>
     \<and> now w \<le> now w' \<and> launched w \<le> launched w'
     \<and> (case r of
           Inl e \<Rightarrow> live w' \<subseteq> live w
         | Inr cmds \<Rightarrow> live w' \<subseteq> live w \<union> pids cmds \<and> now w' = now w)"
proof -
  obtain dp rd where h: "hogParams cfg = (dp, rd)" by (cases "hogParams cfg")
  obtain w' r where s: "startLoop w cfg dp rd 0 n [] = Some (w', r)"
     "w' = w\<lparr>status := status w', now := now w', launched := launched w'\<rparr>"
     "now w \<le> now w'" "launched w \<le> launched w'"
     "case r of
           Inl e \<Rightarrow> live w' \<subseteq> live w - pids []
         | Inr cmds' \<Rightarrow> live w' \<subseteq> live w \<union> pids cmds' \<and> pids [] \<subseteq> pids cmds' \<and> now w' = now w"
    using startLoop_props[of w cfg dp rd 0 n "[]"] by blast
  have "case r of Inl e \<Rightarrow> live w' \<subseteq> live w
         | Inr cmds \<Rightarrow> live w' \<subseteq> live w \<union> pids cmds \<and> now w' = now w"
    using s(5) by (cases r) auto
  moreover have "startHogs w cfg n = Some (w', r)" by (simp add: startHogs_def h s(1))
  ultimately show ?thesis using s(2,3,4) by blast
qed

lemma runStep_spawn_failure:
  assumes "startHogs w cfg n = Some (w', Inl err)"
  shows "\<exists>st. runStep w cfg n res = Some (w', res\<lparr>Steps := Steps res @ [st]\<rparr>, None)
     \<and> N st = n \<and> Alive st = 0 \<and> Notes st = ''Startfehler: '' @ errorText err"
proof -
  define st where "st = \<lparr>N = n, Alive = 0, Duration = 0, StepProfile = Profile cfg,
                  StepMemMiB = MemMiB cfg, StepWarmup = Warmup cfg,
                  PreMemKB = memInfo w (now w), PostMemKB = None,
                  PreKSM = ksmStatus w (KSMPath cfg) (now w), PostKSM = None,
                  EstimatedSavedMiB = 0, KsmdTicksDelta = 0,
                  Notes = ''Startfehler: '' @ errorText err\<rparr>"
  have "runStep w cfg n res = Some (w', res\<lparr>Steps := Steps res @ [st]\<rparr>, None)"
    using assms by (simp add: runStep_def Let_def st_def)
  moreover have "N st = n \<and> Alive st = 0 \<and> Notes st = ''Startfehler: '' @ errorText err"
    by (simp add: st_def)
  ultimately show ?thesis by blast
qed


text \<open>
  C2. Whenever \<^verbatim>\<open>startHogs\<close> returns an error it returns no handles, no process exists
  afterwards that did not exist before, and the loop of \<^verbatim>\<open>Run\<close> appends a step whose note
  is the failure and whose alive count is 0. And when, of \<open>n\<close> workloads, launch \<open>i\<close>
  is the first to fail (\<open>1 \<le> i \<le> n\<close>), \<^verbatim>\<open>startHogs\<close> does return that error after \<open>i\<close>
  launches, and all \<open>i - 1\<close> processes launched before are collected.
\<close>

theorem startHogs_rollback:
  "(startHogs w cfg n = Some (w', Inl err) \<longrightarrow>
      live w' \<subseteq> live w
      \<and> (\<exists>st. runStep w cfg n res = Some (w', res\<lparr>Steps := Steps res @ [st]\<rparr>, None)
            \<and> N st = n \<and> Alive st = 0 \<and> Notes st = ''Startfehler: '' @ errorText err))
   \<and> (0 < i \<and> int i \<le> n \<and> \<not> ctxDone w
        \<and> (\<forall>k<i - 1. \<not> launchFails w (launched w + k))
        \<and> launchFails w (launched w + (i - 1)) \<longrightarrow>
      (\<exists>w2. startHogs w cfg n = Some (w2, Inl (ErrStart (launched w + (i - 1))))
          \<and> launched w2 = launched w + i
          \<and> (\<forall>p. status w2 p
                = (if launched w \<le> p \<and> p < launched w + (i - 1) then Reaped else status w p))))"
proof (intro conjI impI)
  assume a: "startHogs w cfg n = Some (w', Inl err)"
  show "live w' \<subseteq> live w" using startHogs_props[of w cfg n] a by auto
  show "\<exists>st. runStep w cfg n res = Some (w', res\<lparr>Steps := Steps res @ [st]\<rparr>, None)
            \<and> N st = n \<and> Alive st = 0 \<and> Notes st = ''Startfehler: '' @ errorText err"
    using a by (rule runStep_spawn_failure)
next
  assume a: "0 < i \<and> int i \<le> n \<and> \<not> ctxDone w
        \<and> (\<forall>k<i - 1. \<not> launchFails w (launched w + k))
        \<and> launchFails w (launched w + (i - 1))"
  obtain dp rd where h: "hogParams cfg = (dp, rd)" by (cases "hogParams cfg")
  have "0 + int (i - 1) < n" using a by linarith
  then obtain w2 where "startLoop w cfg dp rd 0 n [] = Some (w2, Inl (ErrStart (launched w + (i - 1))))"
    "launched w2 = launched w + (i - 1) + 1"
    "\<forall>p. status w2 p
        = (if p \<in> pids [] \<or> (launched w \<le> p \<and> p < launched w + (i - 1)) then Reaped else status w p)"
    using startLoop_fails[of w "i - 1" 0 n cfg dp rd "[]"] a by blast
  then show "\<exists>w2. startHogs w cfg n = Some (w2, Inl (ErrStart (launched w + (i - 1))))
          \<and> launched w2 = launched w + i
          \<and> (\<forall>p. status w2 p
                = (if launched w \<le> p \<and> p < launched w + (i - 1) then Reaped else status w p))"
    using a by (auto simp: startHogs_def h)
qed

theorem startHogs_rollback_witness:
  "\<exists>w2 st. startHogs exampleWorld exampleConfig 5 = Some (w2, Inl (ErrStart 2))
     \<and> launched w2 = 3 \<and> status w2 0 = Reaped \<and> status w2 1 = Reaped \<and> live w2 \<subseteq> live exampleWorld
     \<and> runStep exampleWorld exampleConfig 5 \<lparr>StartedAt = 0, RunProfile = ''P1'', Steps = []\<rparr>
         = Some (w2, \<lparr>StartedAt = 0, RunProfile = ''P1'', Steps = [st]\<rparr>, None)
     \<and> N st = 5 \<and> Alive st = 0 \<and> Notes st = ''Startfehler: fork/exec''"
proof -
  have f: "launched exampleWorld = 0" "\<not> ctxDone exampleWorld"
    "\<And>k. launchFails exampleWorld k = (k = 2)"
    by (simp_all add: exampleWorld_def ctxDone_def)
  have h: "0 < (3::nat) \<and> int 3 \<le> 5 \<and> \<not> ctxDone exampleWorld
        \<and> (\<forall>k<3 - 1. \<not> launchFails exampleWorld (launched exampleWorld + k))
        \<and> launchFails exampleWorld (launched exampleWorld + (3 - 1))"
    by (simp add: f)
  have "\<exists>w2. startHogs exampleWorld exampleConfig 5
            = Some (w2, Inl (ErrStart (launched exampleWorld + (3 - 1))))
          \<and> launched w2 = launched exampleWorld + 3
          \<and> (\<forall>p. status w2 p
                = (if launched exampleWorld \<le> p \<and> p < launched exampleWorld + (3 - 1) then Reaped
                   else status exampleWorld p))"
    using startHogs_rollback[where w = exampleWorld and cfg = exampleConfig and n = 5 and i = 3] h
    by blast
  then obtain w2 where s: "startHogs exampleWorld exampleConfig 5 = Some (w2, Inl (ErrStart 2))"
    "launched w2 = 3" "status w2 0 = Reaped" "status w2 1 = Reaped"
    by (auto simp: f)
  obtain st where t: "live w2 \<subseteq> live exampleWorld"
    "runStep exampleWorld exampleConfig 5 \<lparr>StartedAt = 0, RunProfile = ''P1'', Steps = []\<rparr>
       = Some (w2, \<lparr>StartedAt = 0, RunProfile = ''P1'', Steps = []\<rparr>
                     \<lparr>Steps := Steps \<lparr>StartedAt = 0, RunProfile = ''P1'', Steps = []\<rparr> @ [st]\<rparr>, None)"
    "N st = 5" "Alive st = 0" "Notes st = ''Startfehler: '' @ errorText (ErrStart 2)"
    using startHogs_rollback[where w = exampleWorld and cfg = exampleConfig and n = 5
        and w' = w2 and err = "ErrStart 2"
        and res = "\<lparr>StartedAt = 0, RunProfile = ''P1'', Steps = []\<rparr>"] s(1)
    by blast
  have "Notes st = ''Startfehler: fork/exec''" using t(5) by (simp add: errorText_def)
  then show ?thesis using s t(1-4) by (intro exI[of _ w2] exI[of _ st]) simp
qed

subsection \<open>The run\<close>

lemma warmupWait_props: "\<exists>t b. warmupWait w d = (w\<lparr>now := t\<rparr>, b) \<and> now w \<le> t"
  by (auto simp: warmupWait_def split: option.splits)

lemma step_exI:
  "N st = n \<Longrightarrow> \<exists>stp. res\<lparr>Steps := Steps res @ [st]\<rparr> = res\<lparr>Steps := Steps res @ [stp]\<rparr> \<and> N stp = n"
  by blast

lemma runStep_props:
  "\<exists>w' res' e. runStep w cfg n res = Some (w', res', e)
     \<and> live w' \<subseteq> live w
     \<and> w' = w\<lparr>status := status w', now := now w', launched := launched w'\<rparr>
     \<and> (case e of
           None \<Rightarrow> (\<exists>st. res' = res\<lparr>Steps := Steps res @ [st]\<rparr> \<and> N st = n)
         | Some err \<Rightarrow> err = ErrCanceled \<and> res' = res)
     \<and> (cancelAt w = None \<longrightarrow> e = None)"
proof -
  obtain w1 r where s: "startHogs w cfg n = Some (w1, r)"
     "w1 = w\<lparr>status := status w1, now := now w1, launched := launched w1\<rparr>"
     "case r of Inl e \<Rightarrow> live w1 \<subseteq> live w
         | Inr cmds \<Rightarrow> live w1 \<subseteq> live w \<union> pids cmds \<and> now w1 = now w"
    using startHogs_props[of w cfg n] by blast
  show ?thesis
  proof (cases r)
    case (Inl err)
    obtain st where "runStep w cfg n res = Some (w1, res\<lparr>Steps := Steps res @ [st]\<rparr>, None)"
      "N st = n"
      using runStep_spawn_failure[of w cfg n w1 err res] s(1) Inl by blast
    moreover have "live w1 \<subseteq> live w" using s(3) Inl by simp
    ultimately show ?thesis using s(2) by auto
  next
    case (Inr cmds)
    obtain t b where ww: "warmupWait w1 (Warmup cfg) = (w1\<lparr>now := t\<rparr>, b)"
      using warmupWait_props[of w1 "Warmup cfg"] by blast
    define w2 where "w2 = w1\<lparr>now := t\<rparr>"
    obtain w3 where st: "stopHogs w2 cmds = Some (w3, None)"
      "\<forall>p. status w3 p = (if p \<in> pids cmds then Reaped else status w2 p)"
      "w3 = w2\<lparr>status := status w3, now := now w3\<rparr>"
      using stopHogs_props[of w2 cmds] by blast
    have l: "live w3 \<subseteq> live w"
      using st(2) s(3) Inr by (auto simp: live_def w2_def)
    have f: "w3 = w\<lparr>status := status w3, now := now w3, launched := launched w3\<rparr>"
    proof -
      have "launched w3 = launched w1" by (subst st(3)) (simp add: w2_def)
      then show ?thesis by (subst st(3), simp add: w2_def, subst s(2)) simp
    qed
    show ?thesis
    proof (cases b)
      case True
      have "cancelAt w1 = cancelAt w" by (subst s(2)) simp
      then have nc: "cancelAt w \<noteq> None"
        using ww True by (auto simp: warmupWait_def split: option.splits)
      have "runStep w cfg n res = Some (w3, res, Some ErrCanceled)"
        using s(1) Inr ww True st(1) by (simp add: runStep_def Let_def w2_def)
      then show ?thesis using l f nc by simp
    next
      case False
      have "\<exists>stp. runStep w cfg n res = Some (w3, res\<lparr>Steps := Steps res @ [stp]\<rparr>, None) \<and> N stp = n"
        using s(1) Inr ww False st(1)
        by (auto simp: runStep_def Let_def w2_def intro!: step_exI)
      then show ?thesis using l f by auto
    qed
  qed
qed

lemma runLoop_props:
  "\<exists>w' res' e. runLoop w cfg ns res = Some (w', res', e)
     \<and> live w' \<subseteq> live w
     \<and> StartedAt res' = StartedAt res \<and> RunProfile res' = RunProfile res
     \<and> (\<exists>sts. Steps res' = Steps res @ sts
            \<and> prefix (map N sts) (filter (\<lambda>n. 0 < n) ns)
            \<and> (e = None \<longrightarrow> map N sts = filter (\<lambda>n. 0 < n) ns))
     \<and> (e = None \<or> e = Some ErrCanceled)
     \<and> (cancelAt w = None \<longrightarrow> e = None)"
proof (induction ns arbitrary: w res)
  case Nil
  then show ?case by simp
next
  case (Cons n ns)
  show ?case
  proof (cases "n \<le> 0")
    case True
    then show ?thesis using Cons[of w res] by simp
  next
    case False
    obtain w1 res1 e1 where r: "runStep w cfg n res = Some (w1, res1, e1)"
      "live w1 \<subseteq> live w"
      "case e1 of
           None \<Rightarrow> (\<exists>st. res1 = res\<lparr>Steps := Steps res @ [st]\<rparr> \<and> N st = n)
         | Some err \<Rightarrow> err = ErrCanceled \<and> res1 = res"
      "w1 = w\<lparr>status := status w1, now := now w1, launched := launched w1\<rparr>"
      "cancelAt w = None \<longrightarrow> e1 = None"
      using runStep_props[of w cfg n res] by (elim exE conjE) iprover
    have ca: "cancelAt w1 = cancelAt w" by (subst r(4)) simp
    show ?thesis
    proof (cases e1)
      case (Some err)
      then have "runLoop w cfg (n # ns) res = Some (w1, res, Some ErrCanceled)"
        using False r(1,3) by simp
      moreover have "Steps res = Steps res @ []" by simp
      moreover have "cancelAt w \<noteq> None" using r(5) Some by auto
      ultimately show ?thesis using r(2) by (auto simp del: append_Nil2)
    next
      case None
      then obtain st where st: "res1 = res\<lparr>Steps := Steps res @ [st]\<rparr>" "N st = n"
        using r(3) by auto
      obtain w' res' e where ih: "runLoop w1 cfg ns res1 = Some (w', res', e)"
        "live w' \<subseteq> live w1"
        "StartedAt res' = StartedAt res1" "RunProfile res' = RunProfile res1"
        "\<exists>sts. Steps res' = Steps res1 @ sts
            \<and> prefix (map N sts) (filter (\<lambda>n. 0 < n) ns)
            \<and> (e = None \<longrightarrow> map N sts = filter (\<lambda>n. 0 < n) ns)"
        "e = None \<or> e = Some ErrCanceled"
        "cancelAt w1 = None \<longrightarrow> e = None"
        using Cons[of w1 res1] by (elim exE conjE) iprover
      then obtain sts where sts: "Steps res' = Steps res1 @ sts"
        "prefix (map N sts) (filter (\<lambda>n. 0 < n) ns)"
        "e = None \<longrightarrow> map N sts = filter (\<lambda>n. 0 < n) ns" by blast
      have "runLoop w cfg (n # ns) res = Some (w', res', e)"
        using False r(1) None ih(1) by simp
      moreover have "Steps res' = Steps res @ (st # sts)" using sts(1) st(1) by simp
      moreover have "prefix (map N (st # sts)) (filter (\<lambda>n. 0 < n) (n # ns))"
        using sts(2) st(2) False by simp
      moreover have "e = None \<longrightarrow> map N (st # sts) = filter (\<lambda>n. 0 < n) (n # ns)"
        using sts(3) st(2) False by simp
      moreover have "live w' \<subseteq> live w" using ih(2) r(2) by blast
      moreover have "StartedAt res' = StartedAt res" "RunProfile res' = RunProfile res"
        using ih(3,4) st(1) by simp_all
      moreover have "cancelAt w = None \<longrightarrow> e = None" using ih(7) ca by simp
      ultimately show ?thesis using ih(6) by iprover
    qed
  qed
qed


lemma runLoop_skip:
  "runLoop w cfg ns res = runLoop w cfg (filter (\<lambda>n. 0 < n) ns) res"
  by (induction ns arbitrary: w res) (auto split: option.splits)

lemma runLoop_nonpositive:
  "\<forall>n \<in> set ns. n \<le> 0 \<Longrightarrow> runLoop w cfg ns res = Some (w, res, None)"
  by (induction ns) auto


lemma withDefaults_Instances: "Instances (withDefaults cfg) = Instances cfg"
  by (simp add: withDefaults_def Let_def)

text \<open>
  C7. \<^verbatim>\<open>Run\<close> always returns. The steps of its result are one for each positive count,
  in the order of the configuration: always a prefix of these, and all of them unless
  the run ends with the cancellation error; the counts 1, 2 give two steps, for 1 and
  for 2. After every pass through the loop body, and so before the next launch, no
  process exists that did not exist before the pass. A launch that fails adds a step
  with the failure note and the loop goes on with the next count. With a valid
  configuration, the output directory made and a context that is never cancelled,
  \<^verbatim>\<open>Run\<close> does return a result, with one step for each positive count.
\<close>

theorem Run_sequencing:
  "(\<exists>r. Run w cfg = Some r)
   \<and> (Run w cfg = Some (w', Some res, e) \<longrightarrow>
        prefix (map N (Steps res)) (filter (\<lambda>n. 0 < n) (Instances cfg))
        \<and> (e \<noteq> Some ErrCanceled \<longrightarrow> map N (Steps res) = filter (\<lambda>n. 0 < n) (Instances cfg))
        \<and> live w' \<subseteq> live w)
   \<and> (\<exists>w1 res1 e1. runStep w cfg n res0 = Some (w1, res1, e1) \<and> live w1 \<subseteq> live w)
   \<and> (0 < n \<and> startHogs w cfg n = Some (w1, Inl err) \<longrightarrow>
        (\<exists>st. runLoop w cfg (n # ns) res0 = runLoop w1 cfg ns (res0\<lparr>Steps := Steps res0 @ [st]\<rparr>)
            \<and> N st = n \<and> Notes st = ''Startfehler: '' @ errorText err))
   \<and> (Instances cfg = [1, 2] \<and> Run w cfg = Some (w', Some res, e) \<and> e \<noteq> Some ErrCanceled \<longrightarrow>
        map N (Steps res) = [1, 2])
   \<and> (ExecPath cfg \<noteq> [] \<and> Instances cfg \<noteq> [] \<and> mkdirOk w \<and> cancelAt w = None \<longrightarrow>
        (\<exists>w2 res2 e2. Run w cfg = Some (w2, Some res2, e2)
            \<and> (e2 = None \<or> e2 = Some ErrWriteJSON)
            \<and> map N (Steps res2) = filter (\<lambda>n. 0 < n) (Instances cfg)))"
proof -
  define cfg' where "cfg' = withDefaults cfg"
  define r0 where "r0 = \<lparr>StartedAt = now w, RunProfile = Profile cfg', Steps = []\<rparr>"
  obtain wl resl el where l: "runLoop w cfg' (Instances cfg) r0 = Some (wl, resl, el)"
    "live wl \<subseteq> live w"
    "\<exists>sts. Steps resl = Steps r0 @ sts
            \<and> prefix (map N sts) (filter (\<lambda>n. 0 < n) (Instances cfg))
            \<and> (el = None \<longrightarrow> map N sts = filter (\<lambda>n. 0 < n) (Instances cfg))"
    "el = None \<or> el = Some ErrCanceled"
    "cancelAt w = None \<longrightarrow> el = None"
    using runLoop_props[of w cfg' "Instances cfg" r0] by (elim exE conjE) iprover
  have st: "prefix (map N (Steps resl)) (filter (\<lambda>n. 0 < n) (Instances cfg))"
    "el = None \<longrightarrow> map N (Steps resl) = filter (\<lambda>n. 0 < n) (Instances cfg)"
    using l(3) by (auto simp: r0_def)
  have R: "Run w cfg =
     (if ExecPath cfg = [] then Some (w, None, Some ErrExecPath)
      else if Instances cfg = [] then Some (w, None, Some ErrInstancesEmpty)
      else if \<not> mkdirOk w then Some (w, None, Some ErrMkdir)
      else if el = Some ErrCanceled then Some (wl, Some resl, Some ErrCanceled)
      else if writeOk wl then Some (wl, Some resl, None)
      else Some (wl, Some resl, Some ErrWriteJSON))"
    using l(1,4) by (auto simp: Run_def Let_def withDefaults_Instances cfg'_def r0_def)
  have A: "\<exists>r. Run w cfg = Some r" unfolding R by simp
  have B: "Run w cfg = Some (w', Some res, e) \<longrightarrow>
        prefix (map N (Steps res)) (filter (\<lambda>n. 0 < n) (Instances cfg))
        \<and> (e \<noteq> Some ErrCanceled \<longrightarrow> map N (Steps res) = filter (\<lambda>n. 0 < n) (Instances cfg))
        \<and> live w' \<subseteq> live w"
    unfolding R using st l(2,4) by (auto split: if_splits)
  have C: "\<exists>w1 res1 e1. runStep w cfg n res0 = Some (w1, res1, e1) \<and> live w1 \<subseteq> live w"
    using runStep_props[of w cfg n res0] by blast
  have D: "0 < n \<and> startHogs w cfg n = Some (w1, Inl err) \<longrightarrow>
        (\<exists>st. runLoop w cfg (n # ns) res0 = runLoop w1 cfg ns (res0\<lparr>Steps := Steps res0 @ [st]\<rparr>)
            \<and> N st = n \<and> Notes st = ''Startfehler: '' @ errorText err)"
  proof
    assume a: "0 < n \<and> startHogs w cfg n = Some (w1, Inl err)"
    then obtain st where "runStep w cfg n res0 = Some (w1, res0\<lparr>Steps := Steps res0 @ [st]\<rparr>, None)"
      "N st = n" "Notes st = ''Startfehler: '' @ errorText err"
      using runStep_spawn_failure[of w cfg n w1 err res0] by blast
    then show "\<exists>st. runLoop w cfg (n # ns) res0 = runLoop w1 cfg ns (res0\<lparr>Steps := Steps res0 @ [st]\<rparr>)
            \<and> N st = n \<and> Notes st = ''Startfehler: '' @ errorText err"
      using a by (intro exI[of _ st]) simp
  qed
  have E: "Instances cfg = [1, 2] \<and> Run w cfg = Some (w', Some res, e) \<and> e \<noteq> Some ErrCanceled \<longrightarrow>
        map N (Steps res) = [1, 2]"
    using B by auto
  have F: "ExecPath cfg \<noteq> [] \<and> Instances cfg \<noteq> [] \<and> mkdirOk w \<and> cancelAt w = None \<longrightarrow>
        (\<exists>w2 res2 e2. Run w cfg = Some (w2, Some res2, e2)
            \<and> (e2 = None \<or> e2 = Some ErrWriteJSON)
            \<and> map N (Steps res2) = filter (\<lambda>n. 0 < n) (Instances cfg))"
    unfolding R using st(2) l(5) by auto
  show ?thesis using A B C D E F by blast
qed

theorem Run_sequencing_witness:
  "\<exists>w' res. Run exampleWorld exampleConfig = Some (w', Some res, None)
     \<and> map N (Steps res) = [1, 2] \<and> live w' \<subseteq> live exampleWorld"
proof -
  have h: "ExecPath exampleConfig \<noteq> [] \<and> Instances exampleConfig \<noteq> []
      \<and> mkdirOk exampleWorld \<and> cancelAt exampleWorld = None"
    by (simp add: exampleConfig_def exampleWorld_def)
  have i: "Instances exampleConfig = [1, 2]" by (simp add: exampleConfig_def)
  have ev: "case Run exampleWorld exampleConfig of
              Some (w', Some res, None) \<Rightarrow> True | _ \<Rightarrow> False"
    by code_simp
  then obtain w' res where r: "Run exampleWorld exampleConfig = Some (w', Some res, None)"
    by (auto split: option.splits)
  show ?thesis
    using Run_sequencing[of exampleWorld exampleConfig w' res None] r i h by auto
qed



text \<open>
  C10. Counts that are not positive have no effect on the loop: no step, no launch, no
  error, and the state is unchanged. For a valid configuration whose counts are all
  not positive, \<^verbatim>\<open>Run\<close> returns a result without steps and no error, unless the output
  directory cannot be made or the result cannot be written.
\<close>

theorem Run_skips_nonpositive:
  "runLoop w cfg ns res = runLoop w cfg (filter (\<lambda>n. 0 < n) ns) res
   \<and> ((\<forall>n \<in> set ns. n \<le> 0) \<longrightarrow> runLoop w cfg ns res = Some (w, res, None))
   \<and> (ExecPath cfg \<noteq> [] \<and> Instances cfg \<noteq> [] \<and> (\<forall>n \<in> set (Instances cfg). n \<le> 0) \<longrightarrow>
        Run w cfg
        = Some (w,
                if mkdirOk w
                then Some \<lparr>StartedAt = now w, RunProfile = Profile (withDefaults cfg), Steps = []\<rparr>
                else None,
                if \<not> mkdirOk w then Some ErrMkdir
                else if writeOk w then None else Some ErrWriteJSON))"
  using runLoop_skip[of w cfg ns res] runLoop_nonpositive[of ns w cfg res]
    runLoop_nonpositive[of "Instances cfg" w "withDefaults cfg"]
  by (auto simp: Run_def Let_def withDefaults_Instances)

theorem Run_skips_nonpositive_witness:
  "Run exampleWorld (exampleConfig\<lparr>Instances := [0, - 3]\<rparr>)
   = Some (exampleWorld, Some \<lparr>StartedAt = 0, RunProfile = ''P1'', Steps = []\<rparr>, None)"
  using Run_skips_nonpositive[of exampleWorld "exampleConfig\<lparr>Instances := [0, - 3]\<rparr>"]
  by (simp add: exampleWorld_def exampleConfig_def withDefaults_def ProfileP1_def)

end
